theory Spec2Isabelle
  imports
    Main
    "HOL-Library.Multiset"
    "HOL-Library.Char_ord"
    "HOL-Library.List_Lexorder"
    "HOL-Library.Product_Lexorder"
begin

section \<open>Data model of the commit-graph engine (internal/gitgraph/provider.go)\<close>

text \<open>
  A \<open>plumbing.Hash\<close> is identified with the string \<open>Hash.String()\<close> returns (its
  lower-case hexadecimal form); Go compares strings bytewise and lexicographically, which is
  the order \<open>HOL-Library.List_Lexorder\<close> over \<open>HOL-Library.Char_ord\<close> puts on
  \<open>string\<close>. A \<open>time.Time\<close> is the instant it denotes, an integer; \<open>Equal\<close> and
  \<open>After\<close> compare instants. Slice lengths and indices that the code keeps
  non-negative are natural numbers; \<open>indexOfHash\<close>, which returns \<open>-1\<close>, the
  \<open>index\<close> of \<open>Ensure\<close> and \<open>limit\<close> are integers.
\<close>

type_synonym hash = string

record GraphCell =
  Ch :: string
  Color :: int

text \<open>The fields of \<open>object.Commit\<close> that the engine reads.\<close>

record commit =
  Hash :: hash
  ParentHashes :: "hash list"
  Message :: string
  AuthorName :: string
  CommitterWhen :: int

record CommitInfo =
  InfoHash :: hash
  ShortHash :: string
  Subject :: string
  Author :: string
  When :: int
  Graph :: "GraphCell list"
  Commit :: commit

record graphState =
  columns :: "hash list"

definition backslash :: string where
  "backslash = [CHR 0x5C]"

section \<open>Column layout: \<open>graphState.Render\<close>\<close>

fun indexOfHash_from :: "nat \<Rightarrow> hash list \<Rightarrow> hash \<Rightarrow> int" where
  "indexOfHash_from i [] target = - 1"
| "indexOfHash_from i (h # hs) target =
     (if h = target then int i else indexOfHash_from (Suc i) hs target)"

definition indexOfHash :: "hash list \<Rightarrow> hash \<Rightarrow> int" where
  "indexOfHash list target = indexOfHash_from 0 list target"

fun dedupe_loop :: "hash list \<Rightarrow> hash set \<Rightarrow> hash list \<Rightarrow> hash list" where
  "dedupe_loop [] seen out = out"
| "dedupe_loop (h # hs) seen out =
     (if h \<in> seen then dedupe_loop hs seen out
      else dedupe_loop hs (insert h seen) (out @ [h]))"

definition dedupeHashes :: "hash list \<Rightarrow> hash list" where
  "dedupeHashes list = dedupe_loop list {} []"

text \<open>The loop \<open>for i := 1; i < len(parents); i++\<close> that marks the branch-opening cells.\<close>

definition mark_branches :: "GraphCell list \<Rightarrow> nat \<Rightarrow> nat \<Rightarrow> GraphCell list" where
  "mark_branches cells idx n =
     fold (\<lambda>i cs. let pos = idx + i in
                   if pos < length cs then cs[pos := (cs ! pos)\<lparr>Ch := backslash\<rparr>] else cs)
          [1..<n] cells"

text \<open>
  The loop that splices the additional parents into the column list:
  \<open>append(columns[:insertAt], append([]Hash{parents[i]}, columns[insertAt:]...)...)\<close>.
  The inner \<open>append\<close> copies the tail before the outer one writes, so the result is the
  plain insertion.
\<close>

definition insert_parents :: "hash list \<Rightarrow> nat \<Rightarrow> hash list \<Rightarrow> hash list" where
  "insert_parents cols idx parents =
     fold (\<lambda>i cs. let insertAt = idx + i in
                   take insertAt cs @ [parents ! i] @ drop insertAt cs)
          [1..<length parents] cols"

definition Render :: "graphState \<Rightarrow> commit \<Rightarrow> GraphCell list \<times> graphState" where
  "Render g c =
     (let found = indexOfHash (columns g) (Hash c);
          cols1 = (if found = - 1 then Hash c # columns g else columns g);
          idx = (if found = - 1 then 0 else nat found);
          parents = ParentHashes c;
          preLen = length cols1;
          postLen = (if length parents > 1 then preLen + (length parents - 1) else preLen);
          cells0 = map (\<lambda>i. \<lparr>Ch = ''|'', Color = int i\<rparr>) [0..<postLen];
          cells1 = (if idx < length cells0 then cells0[idx := (cells0 ! idx)\<lparr>Ch := ''*''\<rparr>]
                    else cells0);
          cells2 = (if length parents > 1 then mark_branches cells1 idx (length parents)
                    else cells1);
          cols2 = (if length parents = 0 then take idx cols1 @ drop (idx + 1) cols1
                   else insert_parents (cols1[idx := parents ! 0]) idx parents)
      in (cells2, g\<lparr>columns := dedupeHashes cols2\<rparr>))"

text \<open>The number of cells of a row that show a given glyph.\<close>

definition glyph_count :: "string \<Rightarrow> GraphCell list \<Rightarrow> nat" where
  "glyph_count s cells = length (filter (\<lambda>cell. Ch cell = s) cells)"

text \<open>A commit value with the given hash, parents and committer time, for the concrete
  instances below.\<close>

definition mkc :: "hash \<Rightarrow> hash list \<Rightarrow> int \<Rightarrow> commit" where
  "mkc h ps t =
     \<lparr>Hash = h, ParentHashes = ps, Message = ''msg'', AuthorName = ''ann'', CommitterWhen = t\<rparr>"


section \<open>The frontier: \<open>commitHeap\<close> under \<open>container/heap\<close>\<close>

text \<open>
  \<open>commitHeap\<close> is a slice of commits with the methods \<open>Len\<close>, \<open>Less\<close>, \<open>Swap\<close>,
  \<open>Push\<close> and \<open>Pop\<close>; \<open>Len\<close> is \<open>length\<close>. \<open>Less\<close> puts the later committer
  time first and, at equal times, the greater hash string first.
\<close>

type_synonym commitHeap = "commit list"

definition Less :: "commitHeap \<Rightarrow> nat \<Rightarrow> nat \<Rightarrow> bool" where
  "Less h i j =
     (if CommitterWhen (h ! i) = CommitterWhen (h ! j) then Hash (h ! i) > Hash (h ! j)
      else CommitterWhen (h ! i) > CommitterWhen (h ! j))"

definition Swap :: "commitHeap \<Rightarrow> nat \<Rightarrow> nat \<Rightarrow> commitHeap" where
  "Swap h i j = h[i := h ! j, j := h ! i]"

definition commitHeap_Push :: "commitHeap \<Rightarrow> commit \<Rightarrow> commitHeap" where
  "commitHeap_Push h x = h @ [x]"

definition commitHeap_Pop :: "commitHeap \<Rightarrow> commit \<times> commitHeap" where
  "commitHeap_Pop old = (let n = length old in (old ! (n - 1), take (n - 1) old))"

text \<open>
  The functions \<open>heap.Push\<close>, \<open>heap.Pop\<close>, \<open>up\<close> and \<open>down\<close> of Go's standard package
  \<open>container/heap\<close>, which the provider calls on the frontier, written over the methods
  above. Indices are natural numbers: \<open>(j - 1) / 2\<close> is \<open>0\<close> for \<open>j = 0\<close> in Go
  (division truncates towards zero) as it is here, the guard of \<open>down\<close> against an
  overflowing \<open>2*i + 1\<close> has no counterpart, and the boolean \<open>down\<close> returns, which
  \<open>heap.Pop\<close> ignores, is left out. \<open>heap.Pop\<close> on an empty heap calls
  \<open>Swap(0, -1)\<close>, an index out of range: the panic is the value \<open>None\<close>.
\<close>

function heap_up :: "commitHeap \<Rightarrow> nat \<Rightarrow> commitHeap" where
  "heap_up h j =
     (let i = (j - 1) div 2 in
      if i = j \<or> \<not> Less h j i then h else heap_up (Swap h i j) i)"
  by pat_completeness auto
termination
  by (relation "measure snd") auto

declare heap_up.simps [simp del]

function heap_down :: "commitHeap \<Rightarrow> nat \<Rightarrow> nat \<Rightarrow> commitHeap" where
  "heap_down h i n =
     (let j1 = 2 * i + 1 in
      if j1 \<ge> n then h
      else let j = (if j1 + 1 < n \<and> Less h (j1 + 1) j1 then j1 + 1 else j1) in
           if \<not> Less h j i then h else heap_down (Swap h i j) j n)"
  by pat_completeness auto
termination
  by (relation "measure (\<lambda>(h, i, n). n - i)") auto

declare heap_down.simps [simp del]

definition heap_Push :: "commitHeap \<Rightarrow> commit \<Rightarrow> commitHeap" where
  "heap_Push h x = (let h1 = commitHeap_Push h x in heap_up h1 (length h1 - 1))"

definition heap_Pop :: "commitHeap \<Rightarrow> (commit \<times> commitHeap) option" where
  "heap_Pop h =
     (if h = [] then None
      else let n = length h - 1; h1 = Swap h 0 n; h2 = heap_down h1 0 n
           in Some (commitHeap_Pop h2))"

text \<open>A sequence of \<open>heap.Push\<close> and \<open>heap.Pop\<close> calls, as the provider issues them.\<close>

datatype heap_op = PushOp commit | PopOp

fun heap_run :: "heap_op list \<Rightarrow> commitHeap \<Rightarrow> commitHeap option" where
  "heap_run [] h = Some h"
| "heap_run (PushOp x # ops) h = heap_run ops (heap_Push h x)"
| "heap_run (PopOp # ops) h =
     (case heap_Pop h of None \<Rightarrow> None | Some (c, h') \<Rightarrow> heap_run ops h')"

text \<open>The sort key of \<open>Less\<close>, and the heap condition of \<open>container/heap\<close> on a slice.\<close>

definition key :: "commit \<Rightarrow> int \<times> hash" where
  "key c = (CommitterWhen c, Hash c)"

definition heap_ok :: "commitHeap \<Rightarrow> bool" where
  "heap_ok h = list_all (\<lambda>j. key (h ! j) \<le> key (h ! ((j - 1) div 2))) [0..<length h]"

text \<open>The index arithmetic of the binary heap and the invariants under which \<open>up\<close> and
  \<open>down\<close> restore the heap condition.\<close>

definition parent :: "nat \<Rightarrow> nat" where
  "parent j = (j - 1) div 2"

definition up_inv :: "commitHeap \<Rightarrow> nat \<Rightarrow> bool" where
  "up_inv h j \<longleftrightarrow> j < length h \<and>
     (\<forall>c < length h. c \<noteq> j \<longrightarrow> key (h ! c) \<le> key (h ! parent c)) \<and>
     (\<forall>c < length h. parent c = j \<and> c \<noteq> j \<longrightarrow> key (h ! c) \<le> key (h ! parent j))"

definition child :: "commitHeap \<Rightarrow> nat \<Rightarrow> nat \<Rightarrow> nat" where
  "child h i n = (if 2 * i + 2 < n \<and> Less h (2 * i + 2) (2 * i + 1) then 2 * i + 2 else 2 * i + 1)"

definition heap_ok_upto :: "nat \<Rightarrow> commitHeap \<Rightarrow> bool" where
  "heap_ok_upto n h \<longleftrightarrow> (\<forall>c < n. key (h ! c) \<le> key (h ! parent c))"

definition down_inv :: "commitHeap \<Rightarrow> nat \<Rightarrow> nat \<Rightarrow> bool" where
  "down_inv h i n \<longleftrightarrow> n \<le> length h \<and>
     (\<forall>c < n. parent c \<noteq> i \<longrightarrow> key (h ! c) \<le> key (h ! parent c)) \<and>
     (\<forall>c < n. parent c = i \<and> c \<noteq> i \<and> i \<noteq> 0 \<longrightarrow> key (h ! c) \<le> key (h ! parent i))"

section \<open>Strings\<close>

text \<open>
  A Go string is its byte sequence, a \<open>string\<close> here. The functions of package
  \<open>strings\<close> that the engine calls are modelled on ASCII text: \<open>TrimSpace\<close> removes
  the six ASCII white-space characters (tab, line feed, vertical tab, form feed, carriage
  return, space) and \<open>ToLower\<close> maps \<open>A\<close>..\<open>Z\<close> to \<open>a\<close>..\<open>z\<close>; the Unicode
  white space and case mapping that Go applies to bytes beyond ASCII are outside the model.
\<close>

definition isSpace :: "char \<Rightarrow> bool" where
  "isSpace c = (c = CHR 0x09 \<or> c = CHR 0x0A \<or> c = CHR 0x0B \<or> c = CHR 0x0C \<or> c = CHR 0x0D
                \<or> c = CHR 0x20)"

definition TrimSpace :: "string \<Rightarrow> string" where
  "TrimSpace s = rev (dropWhile isSpace (rev (dropWhile isSpace s)))"

text \<open>\<open>strings.SplitN(message, "\n", 2)[0]\<close> is the text before the first line feed.\<close>

definition firstLine :: "string \<Rightarrow> string" where
  "firstLine message = TrimSpace (takeWhile (\<lambda>c. c \<noteq> CHR 0x0A) message)"

section \<open>The history source: what the engine asks of \<open>git.Repository\<close>\<close>

datatype error = Error string

datatype ReferenceType = InvalidReference | HashReference | SymbolicReference

record reference =
  Name :: string
  Type :: ReferenceType
  RefHash :: hash

text \<open>
  An object of the store is the content of a commit: parents, message, author name and
  committer time. \<open>References\<close> is the list the reference iterator yields, or the error
  of \<open>repo.References()\<close>; \<open>Head\<close> is the result of \<open>repo.Head()\<close>.
\<close>

type_synonym commit_object = "hash list \<times> string \<times> string \<times> int"

record repository =
  objects :: "hash \<Rightarrow> commit_object option"
  References :: "error + reference list"
  Head :: "error + reference"

text \<open>
  \<open>repo.CommitObject(h)\<close> fails (\<open>None\<close>) when the store has no commit under \<open>h\<close>;
  the commit it decodes carries the hash it was asked for.
\<close>

definition CommitObject :: "repository \<Rightarrow> hash \<Rightarrow> commit option" where
  "CommitObject r h =
     (case objects r h of
        None \<Rightarrow> None
      | Some (ps, msg, author, t) \<Rightarrow>
          Some \<lparr>Hash = h, ParentHashes = ps, Message = msg, AuthorName = author,
                CommitterWhen = t\<rparr>)"

definition IsBranch :: "string \<Rightarrow> bool" where
  "IsBranch n = (take 11 n = ''refs/heads/'')"

definition IsRemote :: "string \<Rightarrow> bool" where
  "IsRemote n = (take 13 n = ''refs/remotes/'')"

definition gatherTips :: "repository \<Rightarrow> bool \<Rightarrow> error + hash list" where
  "gatherTips r includeAll =
     (case References r of
        Inl err \<Rightarrow> Inl err
      | Inr refs \<Rightarrow>
          let tips = map RefHash
                (filter (\<lambda>ref.
                     (if \<not> includeAll then IsBranch (Name ref) \<or> Name ref = ''HEAD''
                      else IsBranch (Name ref) \<or> IsRemote (Name ref) \<or> Name ref = ''HEAD'')
                     \<and> Type ref = HashReference) refs)
          in if tips = [] then (case Head r of Inr href \<Rightarrow> Inr [RefHash href] | Inl err \<Rightarrow> Inr [])
             else Inr tips)"

section \<open>\<open>CommitProvider\<close>\<close>

record CommitProvider =
  repo :: repository
  all :: bool
  limit :: int
  seen :: "hash set"
  heap :: commitHeap
  graph :: graphState
  Commits :: "CommitInfo list"
  complete :: bool

text \<open>
  The body shared by the loop over the tips in \<open>NewCommitProvider\<close> and the loop over the
  parents in \<open>loadNext\<close>: skip a hash that is in the seen set, skip a hash whose lookup
  fails, otherwise mark it seen and push its commit on the frontier.
\<close>

definition enqueue :: "repository \<Rightarrow> hash \<Rightarrow> hash set \<times> commitHeap \<Rightarrow> hash set \<times> commitHeap" where
  "enqueue r h sh =
     (if h \<in> fst sh then sh
      else case CommitObject r h of
             None \<Rightarrow> sh
           | Some c \<Rightarrow> (insert h (fst sh), heap_Push (snd sh) c))"

definition NewCommitProvider :: "repository \<Rightarrow> bool \<Rightarrow> int \<Rightarrow> error + CommitProvider" where
  "NewCommitProvider r includeAll lim =
     (case gatherTips r includeAll of
        Inl err \<Rightarrow> Inl err
      | Inr tips \<Rightarrow>
          if length tips = 0 then Inl (Error ''no commits found'')
          else let sh = fold (enqueue r) tips ({}, [])
               in Inr \<lparr>repo = r, all = includeAll, limit = lim, seen = fst sh, heap = snd sh,
                        graph = \<lparr>columns = []\<rparr>, Commits = [], complete = False\<rparr>)"

definition HasMore :: "CommitProvider \<Rightarrow> bool" where
  "HasMore p =
     (if limit p > 0 \<and> int (length (Commits p)) \<ge> limit p then False
      else length (heap p) > 0)"

text \<open>
  \<open>commit.Hash.String()[:7]\<close>: the hexadecimal form of a hash has forty characters, so
  the slice is always in range.
\<close>

definition buildCommitInfo :: "commit \<Rightarrow> graphState \<Rightarrow> CommitInfo \<times> graphState" where
  "buildCommitInfo c g =
     (let subject = firstLine (Message c);
          (cells, g') = Render g c
      in (\<lparr>InfoHash = Hash c, ShortHash = take 7 (Hash c), Subject = subject,
            Author = AuthorName c, When = CommitterWhen c, Graph = cells, Commit = c\<rparr>, g'))"

text \<open>
  \<open>loadNext\<close> returns Go's \<open>error\<close> (\<open>None\<close> is \<open>nil\<close>) and the updated provider;
  the outer \<open>option\<close> is \<open>None\<close> when the call panics, which is what \<open>heap.Pop\<close> does
  on an empty frontier.
\<close>

definition loadNext :: "CommitProvider \<Rightarrow> (error option \<times> CommitProvider) option" where
  "loadNext p =
     (case heap_Pop (heap p) of
        None \<Rightarrow> None
      | Some (c, h') \<Rightarrow>
          let (info, g') = buildCommitInfo c (graph p);
              p1 = p\<lparr>heap := h', graph := g', Commits := Commits p @ [info]\<rparr>
          in if limit p1 > 0 \<and> int (length (Commits p1)) \<ge> limit p1 then Some (None, p1)
             else let sh = fold (enqueue (repo p1)) (ParentHashes c) (seen p1, heap p1)
                  in Some (None, p1\<lparr>seen := fst sh, heap := snd sh\<rparr>))"

text \<open>The loop of \<open>Ensure\<close>: \<open>for len(p.Commits) <= index && p.HasMore()\<close>.\<close>

function Ensure_loop :: "int \<Rightarrow> CommitProvider \<Rightarrow> (error option \<times> CommitProvider) option" where
  "Ensure_loop index p =
     (if int (length (Commits p)) \<le> index \<and> HasMore p then
        (case loadNext p of
           None \<Rightarrow> None
         | Some (Some err, p') \<Rightarrow> Some (Some err, p')
         | Some (None, p') \<Rightarrow> Ensure_loop index p')
      else Some (None, p))"
  by pat_completeness auto
termination
proof (relation "measure (\<lambda>(index, p). nat (index + 1 - int (length (Commits p))))")
  show "wf (measure (\<lambda>(index, p). nat (index + 1 - int (length (Commits p)))))"
    by simp
next
  fix index :: int and p x2 :: CommitProvider and x2a x1
  assume a: "int (length (Commits p)) \<le> index \<and> HasMore p"
    and l: "loadNext p = Some x2a" "(x1, x2) = x2a" "x1 = None"
  from l have "length (Commits x2) = Suc (length (Commits p))"
    by (auto simp: loadNext_def Let_def split: option.splits prod.splits if_splits)
  with a show "((index, x2), index, p)
      \<in> measure (\<lambda>(index, p). nat (index + 1 - int (length (Commits p))))"
    by simp
qed

declare Ensure_loop.simps [simp del]

definition Ensure :: "int \<Rightarrow> CommitProvider \<Rightarrow> (error option \<times> CommitProvider) option" where
  "Ensure index p =
     (if index < 0 then Some (None, p)
      else case Ensure_loop index p of
             None \<Rightarrow> None
           | Some (Some err, p') \<Rightarrow> Some (Some err, p')
           | Some (None, p') \<Rightarrow>
               Some (None,
                 if length (heap p') = 0 \<and> (limit p' = 0 \<or> int (length (Commits p')) < limit p')
                 then p'\<lparr>complete := True\<rparr> else p'))"

text \<open>
  A sequence of \<open>Ensure\<close> calls on one provider, as the viewport issues them (it drops the
  returned error: \<open>_ = m.provider.Ensure(...)\<close>).
\<close>

fun Ensure_calls :: "int list \<Rightarrow> CommitProvider \<Rightarrow> CommitProvider option" where
  "Ensure_calls [] p = Some p"
| "Ensure_calls (index # rest) p =
     (case Ensure index p of None \<Rightarrow> None | Some (err, p') \<Rightarrow> Ensure_calls rest p')"

text \<open>
  The invariant of a provider: the frontier is a heap, no hash occurs twice among the
  frontier and the materialized commits, and all of them are in the seen set; and its
  counterpart for the pair that the enqueueing loops thread through.
\<close>

definition prov_inv :: "CommitProvider \<Rightarrow> bool" where
  "prov_inv p \<longleftrightarrow>
     heap_ok (heap p) \<and>
     distinct (map Hash (heap p) @ map InfoHash (Commits p)) \<and>
     set (map Hash (heap p)) \<union> set (map InfoHash (Commits p)) \<subseteq> seen p"

definition enq_inv :: "hash set \<Rightarrow> hash set \<times> commitHeap \<Rightarrow> bool" where
  "enq_inv X sh \<longleftrightarrow>
     heap_ok (snd sh) \<and> distinct (map Hash (snd sh)) \<and> set (map Hash (snd sh)) \<subseteq> fst sh \<and>
     X \<subseteq> fst sh \<and> set (map Hash (snd sh)) \<inter> X = {}"

section \<open>The viewport and filter controller (internal/tui/model.go)\<close>

definition ToLower_char :: "char \<Rightarrow> char" where
  "ToLower_char c =
     (let n = (of_char c :: nat) in if 65 \<le> n \<and> n \<le> 90 then char_of (n + 32) else c)"

definition ToLower :: "string \<Rightarrow> string" where
  "ToLower s = map ToLower_char s"

text \<open>\<open>strings.Contains(s, substr)\<close>: \<open>substr\<close> occurs in \<open>s\<close> at some position.\<close>

fun Contains :: "string \<Rightarrow> string \<Rightarrow> bool" where
  "Contains [] substr = (substr = [])"
| "Contains (x # xs) substr =
     (take (length substr) (x # xs) = substr \<or> Contains xs substr)"

text \<open>
  The fields of \<open>model\<close> that the controller reads and writes; \<open>filesCache\<close> and \<open>err\<close>
  belong to the sidebar. The field \<open>filter\<close> is \<open>filter'\<close> here. The scan cursor and the
  entries of the filtered list only ever count upwards from \<open>0\<close>; the cursor, the offset
  and the sizes are Go \<open>int\<close>s, taken as unbounded integers.
\<close>

record model =
  repoPath :: string
  provider :: CommitProvider
  headName :: string
  width :: int
  height :: int
  didLayout :: bool
  cursor :: int
  offset :: int
  showSidebar :: bool
  showFiles :: bool
  searchActive :: bool
  searchQuery :: string
  filter' :: string
  filtered :: "nat list"
  filterScanned :: nat

text \<open>
  \<open>layoutHeights\<close> measures the rendered header, footer and search line with
  \<open>lipgloss.Height\<close>. The rendering library is not part of the repository: a \<open>renderer\<close>
  gives the three heights as functions of exactly what \<open>headerView\<close>, \<open>footerView\<close> and
  \<open>searchView\<close> read from the model (the width; the repository path, filter, head name,
  list length and number of loaded commits; the cursor position shown, list length,
  number of loaded commits, \<open>HasMore\<close> and filter; the search query).
\<close>

record renderer =
  headerHeight :: "int \<Rightarrow> string \<Rightarrow> string \<Rightarrow> string \<Rightarrow> int \<Rightarrow> int \<Rightarrow> int"
  footerHeight :: "int \<Rightarrow> int \<Rightarrow> int \<Rightarrow> int \<Rightarrow> bool \<Rightarrow> string \<Rightarrow> int"
  searchHeight :: "int \<Rightarrow> string \<Rightarrow> int"

definition clamp :: "int \<Rightarrow> int \<Rightarrow> int \<Rightarrow> int" where
  "clamp val minVal maxVal =
     (if val < minVal then minVal else if val > maxVal then maxVal else val)"

definition listLength :: "model \<Rightarrow> int" where
  "listLength m =
     (if filter' m \<noteq> [] then int (length (filtered m))
      else int (length (Commits (provider m))))"

definition layoutHeights :: "renderer \<Rightarrow> model \<Rightarrow> int \<times> int \<times> int" where
  "layoutHeights R m =
     (if width m \<le> 0 then (1, 1, 0)
      else
        let total = listLength m;
            loaded = int (length (Commits (provider m)));
            position = (if total > 0 then cursor m + 1 else 0);
            hdrH = max 1 (headerHeight R (width m) (repoPath m) (filter' m) (headName m)
                            total loaded);
            ftrH = max 1 (footerHeight R (width m) position total loaded
                            (HasMore (provider m)) (filter' m));
            srchH = (if searchActive m then max 1 (searchHeight R (width m) (searchQuery m))
                     else 0)
        in (hdrH, ftrH, srchH))"

definition viewportHeight :: "renderer \<Rightarrow> model \<Rightarrow> int" where
  "viewportHeight R m =
     (case layoutHeights R m of
        (hdrH, ftrH, srchH) \<Rightarrow>
          let h = height m - hdrH - ftrH - srchH in if h < 1 then 1 else h)"

text \<open>The test of \<open>refreshFilter\<close> on the commit at index \<open>i\<close>.\<close>

definition matches :: "model \<Rightarrow> nat \<Rightarrow> bool" where
  "matches m i =
     (let filterLower = ToLower (filter' m); c = Commits (provider m) ! i
      in Contains (ToLower (Subject c)) filterLower \<or> Contains (ToLower (Author c)) filterLower)"

text \<open>
  The loop of \<open>refreshFilter\<close>, \<open>for m.filterScanned < len(m.provider.Commits)\<close>;
  each round moves the scan cursor up by one.
\<close>

function refreshFilter_loop :: "model \<Rightarrow> model" where
  "refreshFilter_loop m =
     (if filterScanned m < length (Commits (provider m)) then
        refreshFilter_loop
          ((if matches m (filterScanned m)
            then m\<lparr>filtered := filtered m @ [filterScanned m]\<rparr> else m)
           \<lparr>filterScanned := filterScanned m + 1\<rparr>)
      else m)"
  by pat_completeness auto
termination
  by (relation "measure (\<lambda>m. length (Commits (provider m)) - filterScanned m)") auto

declare refreshFilter_loop.simps [simp del]

definition refreshFilter :: "model \<Rightarrow> model" where
  "refreshFilter m = (if filter' m = [] then m else refreshFilter_loop m)"

definition applyFilter :: "string \<Rightarrow> model \<Rightarrow> model" where
  "applyFilter query m =
     (let m1 = m\<lparr>filter' := TrimSpace query, filtered := [], filterScanned := 0,
                 cursor := 0, offset := 0\<rparr>
      in if filter' m1 = [] then m1 else refreshFilter m1)"

text \<open>
  The loop of \<open>ensureVisible\<close> under a filter. Each round loads one more commit, so the
  loop ends when the history is exhausted or the limit reached; on a history that never
  ends it would not return, which is the value \<open>None\<close>, as is a panic of \<open>Ensure\<close>.
\<close>

partial_function (option) ensureVisible_loop :: "int \<Rightarrow> model \<Rightarrow> model option" where
  "ensureVisible_loop target m =
     (if int (length (filtered m)) \<le> target \<and> HasMore (provider m) then
        Option.bind (Ensure (int (length (Commits (provider m)))) (provider m))
          (\<lambda>r. ensureVisible_loop target (refreshFilter (m\<lparr>provider := snd r\<rparr>)))
      else Some m)"

definition ensureVisible :: "renderer \<Rightarrow> model \<Rightarrow> model option" where
  "ensureVisible R m =
     (let buffer = 5; viewport = viewportHeight R m in
      if viewport \<le> 0 then Some m
      else if filter' m = [] then
        Option.bind (Ensure (offset m + viewport + buffer) (provider m))
          (\<lambda>r. Some (m\<lparr>provider := snd r\<rparr>))
      else ensureVisible_loop (offset m + viewport + buffer) m)"

definition moveCursor :: "renderer \<Rightarrow> int \<Rightarrow> model \<Rightarrow> model option" where
  "moveCursor R delta m =
     (if listLength m = 0 then Some m
      else
        let m1 = m\<lparr>cursor := clamp (cursor m + delta) 0 (listLength m - 1)\<rparr>;
            m2 = (if cursor m1 < offset m1 then m1\<lparr>offset := cursor m1\<rparr> else m1);
            m3 = (if cursor m2 \<ge> offset m2 + viewportHeight R m2
                  then m2\<lparr>offset := cursor m2 - viewportHeight R m2 + 1\<rparr> else m2)
        in if delta > 0 then
             Option.bind (ensureVisible R m3)
               (\<lambda>m4. if cursor m4 \<ge> listLength m4 - 1 \<and> HasMore (provider m4)
                      then ensureVisible R m4 else Some m4)
           else Some m3)"

definition normalizePosition :: "renderer \<Rightarrow> model \<Rightarrow> model" where
  "normalizePosition R m =
     (let listLen = listLength m in
      if listLen = 0 then m\<lparr>cursor := 0, offset := 0\<rparr>
      else
        let m1 = m\<lparr>cursor := clamp (cursor m) 0 (listLen - 1)\<rparr>;
            viewport = viewportHeight R m1;
            maxOffset = max 0 (listLen - viewport);
            m2 = m1\<lparr>offset := clamp (offset m1) 0 maxOffset\<rparr>;
            m3 = (if cursor m2 < offset m2 then m2\<lparr>offset := cursor m2\<rparr> else m2)
        in if cursor m3 \<ge> offset m3 + viewport
           then m3\<lparr>offset := cursor m3 - viewport + 1\<rparr> else m3)"

text \<open>
  Messages. Of a \<open>tea.KeyMsg\<close> the handlers read the key type, the runes (\<open>None\<close> is a
  \<open>nil\<close> slice; the runes are kept as the bytes \<open>string(msg.Runes)\<close> gives) and the
  name \<open>msg.String()\<close> returns. A command is \<open>tea.Quit\<close> or \<open>nil\<close>.
\<close>

datatype KeyType = KeyEsc | KeyEnter | KeyBackspace | KeyDelete | KeyRunes | KeyOther

record KeyMsg =
  KType :: KeyType
  Runes :: "string option"
  KString :: string

datatype Msg = WindowSizeMsg int int | KeyPress KeyMsg | OtherMsg

datatype Cmd = Quit

definition NewModel :: "string \<Rightarrow> CommitProvider \<Rightarrow> string \<Rightarrow> model option" where
  "NewModel path prov hname =
     Option.bind (Ensure 0 prov)
       (\<lambda>r. Some \<lparr>repoPath = path, provider = snd r, headName = hname, width = 0, height = 0,
                   didLayout = False, cursor = 0, offset = 0, showSidebar = True,
                   showFiles = False, searchActive = False, searchQuery = [], filter' = [],
                   filtered = [], filterScanned = 0\<rparr>)"

definition handleSearchKey :: "KeyMsg \<Rightarrow> model \<Rightarrow> model \<times> Cmd option" where
  "handleSearchKey msg m =
     (case KType msg of
        KeyEsc \<Rightarrow> (m\<lparr>searchActive := False, searchQuery := []\<rparr>, None)
      | KeyEnter \<Rightarrow> (applyFilter (searchQuery m) (m\<lparr>searchActive := False\<rparr>), None)
      | KeyBackspace \<Rightarrow>
          ((if length (searchQuery m) > 0 then m\<lparr>searchQuery := butlast (searchQuery m)\<rparr>
            else m), None)
      | KeyDelete \<Rightarrow>
          ((if length (searchQuery m) > 0 then m\<lparr>searchQuery := butlast (searchQuery m)\<rparr>
            else m), None)
      | _ \<Rightarrow>
          if KString msg = ''q'' then (m, Some Quit)
          else (case Runes msg of
                  Some rs \<Rightarrow> (m\<lparr>searchQuery := searchQuery m @ rs\<rparr>, None)
                | None \<Rightarrow> (m, None)))"

definition Update :: "renderer \<Rightarrow> Msg \<Rightarrow> model \<Rightarrow> (model \<times> Cmd option) option" where
  "Update R msg m =
     (case msg of
        WindowSizeMsg w h \<Rightarrow>
          let m1 = m\<lparr>width := w, height := h\<rparr>;
              m2 = (if \<not> didLayout m1 then m1\<lparr>cursor := 0, offset := 0, didLayout := True\<rparr>
                    else m1)
          in Option.bind (ensureVisible R m2) (\<lambda>m3. Some (normalizePosition R m3, None))
      | KeyPress k \<Rightarrow>
          if searchActive m then
            (case handleSearchKey k m of
               (next, cmd) \<Rightarrow>
                 Option.bind (ensureVisible R next) (\<lambda>mm. Some (normalizePosition R mm, cmd)))
          else if KString k = ''ctrl+c'' \<or> KString k = ''q'' then Some (m, Some Quit)
          else
            Option.bind
              (if KString k = ''up'' \<or> KString k = ''k'' then moveCursor R (- 1) m
               else if KString k = ''down'' \<or> KString k = ''j'' then moveCursor R 1 m
               else if KString k = ''enter'' then Some (m\<lparr>showFiles := \<not> showFiles m\<rparr>)
               else if KString k = ''/'' then
                 Some (normalizePosition R (m\<lparr>searchActive := True, searchQuery := filter' m\<rparr>))
               else if KString k = ''tab'' then Some (m\<lparr>showSidebar := \<not> showSidebar m\<rparr>)
               else Some m)
              (\<lambda>m1. Option.bind (ensureVisible R m1)
                       (\<lambda>m2. Some (normalizePosition R m2, None)))
      | OtherMsg \<Rightarrow> Some (m, None))"

text \<open>A session: the messages the program delivers to \<open>Update\<close>, one after the other.\<close>

fun Updates :: "renderer \<Rightarrow> Msg list \<Rightarrow> model \<Rightarrow> model option" where
  "Updates R [] m = Some m"
| "Updates R (msg # msgs) m =
     Option.bind (Update R msg m) (\<lambda>r. Updates R msgs (fst r))"

text \<open>
  The steps that touch the filter state, in any order: a new query, a rescan, the loading
  that \<open>ensureVisible\<close> does, and a direct call of \<open>Ensure\<close> on the provider.
\<close>

datatype filter_op = ApplyFilter string | RefreshFilter | EnsureVisible | ProviderEnsure int

fun filter_step :: "renderer \<Rightarrow> filter_op \<Rightarrow> model \<Rightarrow> model option" where
  "filter_step R (ApplyFilter q) m = Some (applyFilter q m)"
| "filter_step R RefreshFilter m = Some (refreshFilter m)"
| "filter_step R EnsureVisible m = ensureVisible R m"
| "filter_step R (ProviderEnsure i) m =
     Option.bind (Ensure i (provider m)) (\<lambda>r. Some (m\<lparr>provider := snd r\<rparr>))"

fun filter_steps :: "renderer \<Rightarrow> filter_op list \<Rightarrow> model \<Rightarrow> model option" where
  "filter_steps R [] m = Some m"
| "filter_steps R (s # ss) m = Option.bind (filter_step R s m) (filter_steps R ss)"

text \<open>
  What the specification calls a case-insensitive substring match of the query against a
  text, and the position invariant of the viewport.
\<close>

definition ci_substring :: "string \<Rightarrow> string \<Rightarrow> bool" where
  "ci_substring q s = (\<exists>pre suf. ToLower s = pre @ ToLower q @ suf)"

definition pos_ok :: "renderer \<Rightarrow> model \<Rightarrow> bool" where
  "pos_ok R m \<longleftrightarrow>
     (listLength m > 0 \<longrightarrow>
        0 \<le> cursor m \<and> cursor m \<le> listLength m - 1 \<and>
        offset m \<le> cursor m \<and> cursor m < offset m + viewportHeight R m)"

definition filter_inv :: "model \<Rightarrow> bool" where
  "filter_inv m \<longleftrightarrow>
     filterScanned m \<le> length (Commits (provider m)) \<and>
     filtered m = filter (matches m) [0..<filterScanned m]"

section \<open>A concrete repository\<close>

text \<open>
  A diamond: the merge \<open>c4\<close> of \<open>c2\<close> and \<open>c3\<close>, which have equal committer times and
  the common parent \<open>c1\<close>, whose own parent \<open>c0\<close> is missing from the store.
  \<open>ex_provider lim\<close> is the provider \<open>NewCommitProvider\<close> builds over it.
\<close>

definition ex_repo :: repository where
  "ex_repo =
     \<lparr>objects = map_of
        [(''c4'', ([''c2'', ''c3''], ''Merge branch'', ''ann'', 40)),
         (''c3'', ([''c1''], ''Fix typo'', ''bob'', 30)),
         (''c2'', ([''c1''], ''add feature'', ''ann'', 30)),
         (''c1'', ([''c0''], ''initial'', ''ann'', 10))],
      References = Inr [\<lparr>Name = ''refs/heads/main'', Type = HashReference, RefHash = ''c4''\<rparr>],
      Head = Inr \<lparr>Name = ''refs/heads/main'', Type = HashReference, RefHash = ''c4''\<rparr>\<rparr>"

definition ex_provider :: "int \<Rightarrow> CommitProvider" where
  "ex_provider lim =
     \<lparr>repo = ex_repo, all = False, limit = lim, seen = {''c4''},
      heap = [mkc ''c4'' [''c2'', ''c3''] 40 \<lparr>Message := ''Merge branch''\<rparr>],
      graph = \<lparr>columns = []\<rparr>, Commits = [], complete = False\<rparr>"

section \<open>Properties of the column layout\<close>

lemma indexOfHash_from_absent:
  "target \<notin> set list \<Longrightarrow> indexOfHash_from i list target = - 1"
  by (induction list arbitrary: i) auto

lemma indexOfHash_from_present:
  "target \<in> set list \<Longrightarrow>
   \<exists>k < length list. indexOfHash_from i list target = int (i + k) \<and> list ! k = target"
proof (induction list arbitrary: i)
  case Nil
  then show ?case by simp
next
  case (Cons h hs)
  show ?case
  proof (cases "h = target")
    case True
    then show ?thesis by (intro exI[of _ 0]) simp
  next
    case False
    with Cons.prems have "target \<in> set hs" by simp
    from Cons.IH[OF this, of "Suc i"] obtain k where
      "k < length hs" "indexOfHash_from (Suc i) hs target = int (Suc i + k)" "hs ! k = target"
      by blast
    with False show ?thesis by (intro exI[of _ "Suc k"]) simp
  qed
qed

lemma indexOfHash_absent: "target \<notin> set list \<Longrightarrow> indexOfHash list target = - 1"
  by (simp add: indexOfHash_def indexOfHash_from_absent)

lemma indexOfHash_present:
  "target \<in> set list \<Longrightarrow>
   \<exists>k < length list. indexOfHash list target = int k \<and> list ! k = target"
  using indexOfHash_from_present[of target list 0] by (simp add: indexOfHash_def)

lemma dedupe_loop_set: "set (dedupe_loop l s out) = set out \<union> (set l - s)"
  by (induction l s out rule: dedupe_loop.induct) auto

lemma dedupe_loop_distinct:
  "distinct out \<Longrightarrow> set out \<subseteq> s \<Longrightarrow> distinct (dedupe_loop l s out)"
  by (induction l s out rule: dedupe_loop.induct) auto

lemma dedupe_loop_id:
  "distinct l \<Longrightarrow> set l \<inter> s = {} \<Longrightarrow> dedupe_loop l s out = out @ l"
  by (induction l s out rule: dedupe_loop.induct) auto

lemma dedupeHashes_set: "set (dedupeHashes l) = set l"
  by (simp add: dedupeHashes_def dedupe_loop_set)

lemma dedupeHashes_distinct: "distinct (dedupeHashes l)"
  by (simp add: dedupeHashes_def dedupe_loop_distinct)

lemma dedupeHashes_id: "distinct l \<Longrightarrow> dedupeHashes l = l"
  by (simp add: dedupeHashes_def dedupe_loop_id)

lemma dedupeHashes_length: "length (dedupeHashes l) = card (set l)"
  using distinct_card[OF dedupeHashes_distinct, of l] by (simp add: dedupeHashes_set)

lemma fold_upt_Suc: "m \<le> n \<Longrightarrow> fold f [m..<Suc n] x = f n (fold f [m..<n] x)"
  by simp

lemma insert_parents_prefix:
  assumes "idx < length cols" "1 \<le> n" "n \<le> length parents"
  shows "fold (\<lambda>i cs. let insertAt = idx + i in
                   take insertAt cs @ [parents ! i] @ drop insertAt cs) [1..<n] cols
         = take (Suc idx) cols @ take (n - 1) (tl parents) @ drop (Suc idx) cols"
  using assms(2,3)
proof (induction n)
  case 0
  then show ?case by simp
next
  case (Suc n)
  show ?case
  proof (cases "n = 0")
    case True
    then show ?thesis by simp
  next
    case False
    then have n1: "1 \<le> n" by simp
    from Suc.prems have nl: "n \<le> length parents" "n < length parents" by simp_all
    have tk: "take n (tl parents) = take (n - 1) (tl parents) @ [parents ! n]"
      using nl False by (cases n) (simp_all add: take_Suc_conv_app_nth nth_tl)
    have len: "length (take (Suc idx) cols @ take (n - 1) (tl parents)) = idx + n"
      using assms(1) nl False by (auto simp: min_def)
    show ?thesis
      using Suc.IH[OF n1 nl(1)] n1 tk len
      by (simp add: Let_def del: upt_Suc add: fold_upt_Suc) 
  qed
qed

lemma insert_parents_eq:
  assumes "idx < length cols" "parents \<noteq> []"
  shows "insert_parents cols idx parents = take (Suc idx) cols @ tl parents @ drop (Suc idx) cols"
  using insert_parents_prefix[OF assms(1), of "length parents" parents] assms(2)
  by (simp add: insert_parents_def Suc_le_eq)

lemma mark_fold_length:
  "length (fold (\<lambda>i cs. let pos = idx + i in
        if pos < length cs then cs[pos := (cs ! pos)\<lparr>Ch := s\<rparr>] else cs) is cells) = length cells"
  by (induction "is" arbitrary: cells) (simp_all add: Let_def)

lemma mark_branches_length: "length (mark_branches cells idx n) = length cells"
  by (simp add: mark_branches_def mark_fold_length)

lemma mark_branches_nth:
  "j < length cells \<Longrightarrow>
   mark_branches cells idx n ! j =
     (if idx < j \<and> j < idx + n then (cells ! j)\<lparr>Ch := backslash\<rparr> else cells ! j)"
proof (induction n)
  case 0
  then show ?case by (auto simp: mark_branches_def)
next
  case (Suc n)
  show ?case
  proof (cases "n = 0")
    case True
    then show ?thesis by (auto simp: mark_branches_def)
  next
    case False
    then have "1 \<le> n" by simp
    then have step: "mark_branches cells idx (Suc n) =
      (let cs = mark_branches cells idx n; pos = idx + n in
        if pos < length cs then cs[pos := (cs ! pos)\<lparr>Ch := backslash\<rparr>] else cs)"
      by (simp add: mark_branches_def Let_def)
    show ?thesis
      using Suc.IH[OF Suc.prems] Suc.prems False
      by (auto simp: step Let_def mark_branches_length nth_list_update)
  qed
qed

lemma take_drop_set_distinct:
  assumes "distinct xs" "k < length xs"
  shows "set (take k xs) \<union> set (drop (Suc k) xs) = set xs - {xs ! k}"
proof -
  have xs: "xs = take k xs @ xs ! k # drop (Suc k) xs"
    using assms(2) by (rule id_take_nth_drop)
  have "distinct (take k xs @ xs ! k # drop (Suc k) xs)"
    using assms(1) xs by simp
  then have "xs ! k \<notin> set (take k xs)" "xs ! k \<notin> set (drop (Suc k) xs)"
    by auto
  moreover have "set xs = set (take k xs) \<union> {xs ! k} \<union> set (drop (Suc k) xs)"
    by (subst xs) auto
  ultimately show ?thesis by auto
qed

text \<open>The column list that \<open>Render\<close> hands to \<open>dedupeHashes\<close>.\<close>

lemma Render_columns_present:
  assumes "Hash c \<in> set (columns g)"
  shows "\<exists>k < length (columns g). columns g ! k = Hash c \<and>
           columns (snd (Render g c)) =
             dedupeHashes (take k (columns g) @ ParentHashes c @ drop (Suc k) (columns g))"
proof -
  from indexOfHash_present[OF assms] obtain k where
    k: "k < length (columns g)" "indexOfHash (columns g) (Hash c) = int k"
       "columns g ! k = Hash c"
    by blast
  show ?thesis
  proof (cases "ParentHashes c")
    case Nil
    with k show ?thesis by (intro exI[of _ k]) (simp add: Render_def Let_def)
  next
    case (Cons p ps)
    have "insert_parents ((columns g)[k := p]) k (p # ps)
          = take k (columns g) @ p # ps @ drop (Suc k) (columns g)"
      using k(1) by (simp add: insert_parents_eq take_Suc_conv_app_nth)
    with k Cons show ?thesis by (intro exI[of _ k]) (simp add: Render_def Let_def)
  qed
qed

lemma Render_columns_absent:
  assumes "Hash c \<notin> set (columns g)"
  shows "columns (snd (Render g c)) = dedupeHashes (ParentHashes c @ columns g)"
proof (cases "ParentHashes c")
  case Nil
  with assms show ?thesis by (simp add: Render_def Let_def indexOfHash_absent)
next
  case (Cons p ps)
  have "insert_parents ((Hash c # columns g)[0 := p]) 0 (p # ps) = p # ps @ columns g"
    by (simp add: insert_parents_eq)
  with assms Cons show ?thesis by (simp add: Render_def Let_def indexOfHash_absent)
qed

lemma Render_columns_distinct: "distinct (columns (snd (Render g c)))"
  by (simp add: Render_def Let_def dedupeHashes_distinct)

lemma Render_columns_set:
  assumes "distinct (columns g)"
  shows "set (columns (snd (Render g c))) = (set (columns g) - {Hash c}) \<union> set (ParentHashes c)"
proof (cases "Hash c \<in> set (columns g)")
  case True
  from Render_columns_present[OF True] obtain k where
    k: "k < length (columns g)" "columns g ! k = Hash c"
       "columns (snd (Render g c)) =
          dedupeHashes (take k (columns g) @ ParentHashes c @ drop (Suc k) (columns g))"
    by blast
  show ?thesis
    using take_drop_set_distinct[OF assms k(1)] k(2)
    by (auto simp: k(3) dedupeHashes_set)
next
  case False
  then show ?thesis by (auto simp: Render_columns_absent dedupeHashes_set)
qed

lemma Render_columns_length:
  assumes "distinct (columns g)"
  shows "length (columns (snd (Render g c))) =
           card ((set (columns g) - {Hash c}) \<union> set (ParentHashes c))"
  using distinct_card[OF Render_columns_distinct, of g c] Render_columns_set[OF assms, of c]
  by simp

text \<open>The cells of the rendered row.\<close>

lemma Render_cells_merge:
  assumes "2 \<le> length (ParentHashes c)"
  shows "\<exists>idx n. idx < n \<and> length (fst (Render g c)) = n + (length (ParentHashes c) - 1) \<and>
          n = length (columns g) + (if Hash c \<in> set (columns g) then 0 else 1) \<and>
          (\<forall>j < n + (length (ParentHashes c) - 1).
             Ch (fst (Render g c) ! j) =
               (if idx < j \<and> j < idx + length (ParentHashes c) then backslash
                else if j = idx then ''*'' else ''|''))"
proof -
  define k where "k = length (ParentHashes c)"
  define found where "found = indexOfHash (columns g) (Hash c)"
  define cols1 where "cols1 = (if found = - 1 then Hash c # columns g else columns g)"
  define idx where "idx = (if found = - 1 then 0 else nat found)"
  define n where "n = length cols1"
  define cells1 where "cells1 =
    (map (\<lambda>i. \<lparr>Ch = ''|'', Color = int i\<rparr>) [0..<n + (k - 1)])[idx :=
        \<lparr>Ch = ''*'', Color = int idx\<rparr>]"
  have found_cases: "(Hash c \<in> set (columns g) \<and> found \<noteq> - 1 \<and> nat found < length (columns g))
     \<or> (Hash c \<notin> set (columns g) \<and> found = - 1)"
  proof (cases "Hash c \<in> set (columns g)")
    case True
    from indexOfHash_present[OF True] True show ?thesis by (auto simp: found_def)
  next
    case False
    then show ?thesis by (simp add: found_def indexOfHash_absent)
  qed
  then have idx_n: "idx < n"
    by (auto simp: idx_def n_def cols1_def)
  have n_eq: "n = length (columns g) + (if Hash c \<in> set (columns g) then 0 else 1)"
    using found_cases by (auto simp: n_def cols1_def)
  have upd: "(map (\<lambda>i. \<lparr>Ch = ''|'', Color = int i\<rparr>) [0..<n + (k - 1)] ! idx)\<lparr>Ch := ''*''\<rparr>
             = \<lparr>Ch = ''*'', Color = int idx\<rparr>"
    using idx_n by simp
  have "fst (Render g c) =
      mark_branches ((map (\<lambda>i. \<lparr>Ch = ''|'', Color = int i\<rparr>) [0..<n + (k - 1)])[idx :=
        (map (\<lambda>i. \<lparr>Ch = ''|'', Color = int i\<rparr>) [0..<n + (k - 1)] ! idx)\<lparr>Ch := ''*''\<rparr>]) idx k"
    unfolding Render_def Let_def fst_conv
      found_def[symmetric] cols1_def[symmetric] idx_def[symmetric] k_def[symmetric]
      n_def[symmetric]
    using assms idx_n by (simp add: k_def)
  then have cells: "fst (Render g c) = mark_branches cells1 idx k"
    unfolding upd cells1_def .
  have len1: "length cells1 = n + (k - 1)" by (simp add: cells1_def)
  have nth1: "Ch (cells1 ! j) = (if j = idx then ''*'' else ''|'')" if "j < n + (k - 1)" for j
    using that by (simp add: cells1_def nth_list_update)
  have "Ch (fst (Render g c) ! j) =
          (if idx < j \<and> j < idx + k then backslash else if j = idx then ''*'' else ''|'')"
    if "j < n + (k - 1)" for j
    using that nth1[OF that] by (auto simp: cells mark_branches_nth len1)
  then show ?thesis
    using idx_n n_eq by (intro exI[of _ idx] exI[of _ n]) (simp add: cells mark_branches_length len1 k_def)
qed

lemma Render_backslash_count:
  assumes "2 \<le> length (ParentHashes c)"
  shows "glyph_count backslash (fst (Render g c)) = length (ParentHashes c) - 1"
proof -
  define k where "k = length (ParentHashes c)"
  from Render_cells_merge[OF assms, of g] obtain idx n where
    h: "idx < n" "length (fst (Render g c)) = n + (k - 1)"
       "\<forall>j < n + (k - 1). Ch (fst (Render g c) ! j) =
               (if idx < j \<and> j < idx + k then backslash
                else if j = idx then ''*'' else ''|'')"
    unfolding k_def by blast
  have iff: "Ch (fst (Render g c) ! j) = backslash \<longleftrightarrow> idx < j \<and> j < idx + k"
    if "j < n + (k - 1)" for j
    using h(3) that by (auto simp: backslash_def)
  have bound: "j < n + (k - 1)" if "j < idx + k" for j
    using that h(1) assms by (simp add: k_def)
  have "{j. j < length (fst (Render g c)) \<and> Ch (fst (Render g c) ! j) = backslash}
        = {Suc idx..<idx + k}"
    using iff bound by (auto simp: h(2))
  then show ?thesis
    by (simp add: glyph_count_def length_filter_conv_card k_def)
qed

lemma dedupeHashes_length_le: "length (dedupeHashes l) \<le> length l"
  by (simp add: dedupeHashes_length card_length)

text \<open>
  Claim C1, as amended. For a merge commit with \<open>k \<ge> 2\<close> parents the returned row holds
  exactly \<open>k - 1\<close> branch-opening glyphs. The column list after the call is never longer
  than the one before plus \<open>k\<close>; when the columns before the call are pairwise distinct
  its length is the number of different hashes among the other columns and the parents; and
  it is exactly \<open>k - 1\<close> longer than before when, in addition, the commit's hash is
  already a column, the parents are pairwise distinct and no parent is another open column
  (so that neither the prepending of step 1 nor the deduplication of step 5 changes the
  count).
\<close>

theorem Render_merge:
  assumes "2 \<le> length (ParentHashes c)"
  shows "glyph_count backslash (fst (Render g c)) = length (ParentHashes c) - 1 \<and>
         length (columns (snd (Render g c))) \<le> length (columns g) + length (ParentHashes c) \<and>
         (distinct (columns g) \<longrightarrow>
            length (columns (snd (Render g c))) =
              card ((set (columns g) - {Hash c}) \<union> set (ParentHashes c))) \<and>
         (distinct (columns g) \<and> Hash c \<in> set (columns g) \<and> distinct (ParentHashes c) \<and>
          set (ParentHashes c) \<inter> (set (columns g) - {Hash c}) = {} \<longrightarrow>
            length (columns (snd (Render g c))) =
              length (columns g) + (length (ParentHashes c) - 1))"
proof (intro conjI impI)
  show "glyph_count backslash (fst (Render g c)) = length (ParentHashes c) - 1"
    by (rule Render_backslash_count[OF assms])
next
  show "length (columns (snd (Render g c))) \<le> length (columns g) + length (ParentHashes c)"
  proof (cases "Hash c \<in> set (columns g)")
    case True
    from Render_columns_present[OF True] obtain k where
      k: "k < length (columns g)"
         "columns (snd (Render g c)) =
            dedupeHashes (take k (columns g) @ ParentHashes c @ drop (Suc k) (columns g))"
      by blast
    show ?thesis
      using dedupeHashes_length_le[of "take k (columns g) @ ParentHashes c @ drop (Suc k) (columns g)"]
        k(1) by (simp add: k(2))
  next
    case False
    show ?thesis
      using dedupeHashes_length_le[of "ParentHashes c @ columns g"]
      by (simp add: Render_columns_absent[OF False])
  qed
next
  assume "distinct (columns g)"
  then show "length (columns (snd (Render g c))) =
      card ((set (columns g) - {Hash c}) \<union> set (ParentHashes c))"
    by (rule Render_columns_length)
next
  assume a: "distinct (columns g) \<and> Hash c \<in> set (columns g) \<and> distinct (ParentHashes c) \<and>
          set (ParentHashes c) \<inter> (set (columns g) - {Hash c}) = {}"
  then have "card ((set (columns g) - {Hash c}) \<union> set (ParentHashes c))
      = card (set (columns g) - {Hash c}) + card (set (ParentHashes c))"
    by (intro card_Un_disjoint) auto
  also have "card (set (columns g) - {Hash c}) = length (columns g) - 1"
    using a by (simp add: distinct_card)
  also have "card (set (ParentHashes c)) = length (ParentHashes c)"
    using a by (simp add: distinct_card)
  finally have "card ((set (columns g) - {Hash c}) \<union> set (ParentHashes c))
      = length (columns g) - 1 + length (ParentHashes c)" .
  moreover have "0 < length (columns g)" using a by (cases "columns g") auto
  ultimately show "length (columns (snd (Render g c))) =
              length (columns g) + (length (ParentHashes c) - 1)"
    using Render_columns_length[of g c] a assms by simp
qed

theorem Render_merge_witness:
  "2 \<le> length (ParentHashes (mkc ''m1'' [''p1'', ''p2''] 7)) \<and>
   distinct (columns \<lparr>columns = [''a0'', ''m1'']\<rparr>) \<and>
   glyph_count backslash (fst (Render \<lparr>columns = [''a0'', ''m1'']\<rparr> (mkc ''m1'' [''p1'', ''p2''] 7))) = 1 \<and>
   length (columns (snd (Render \<lparr>columns = [''a0'', ''m1'']\<rparr> (mkc ''m1'' [''p1'', ''p2''] 7)))) = 3"
proof -
  have h: "2 \<le> length (ParentHashes (mkc ''m1'' [''p1'', ''p2''] 7))"
    by (simp add: mkc_def)
  have d: "distinct (columns \<lparr>columns = [''a0'', ''m1'']\<rparr>) \<and>
      Hash (mkc ''m1'' [''p1'', ''p2''] 7) \<in> set (columns \<lparr>columns = [''a0'', ''m1'']\<rparr>) \<and>
      distinct (ParentHashes (mkc ''m1'' [''p1'', ''p2''] 7)) \<and>
      set (ParentHashes (mkc ''m1'' [''p1'', ''p2''] 7)) \<inter>
        (set (columns \<lparr>columns = [''a0'', ''m1'']\<rparr>) - {Hash (mkc ''m1'' [''p1'', ''p2''] 7)}) = {}"
    by (simp add: mkc_def)
  from Render_merge[OF h, of "\<lparr>columns = [''a0'', ''m1'']\<rparr>"] d h show ?thesis
    by (simp add: mkc_def)
qed

text \<open>
  The length part of C1 as stated fails for a merge commit that is a fresh tip: rendering it
  into the empty column list leaves two columns, not one.
\<close>

theorem Render_merge_length_counterexample:
  "2 \<le> length (ParentHashes (mkc ''m1'' [''p1'', ''p2''] 7)) \<and>
   length (columns (snd (Render \<lparr>columns = []\<rparr> (mkc ''m1'' [''p1'', ''p2''] 7))))
     \<noteq> length (columns \<lparr>columns = []\<rparr>) + (length (ParentHashes (mkc ''m1'' [''p1'', ''p2''] 7)) - 1)"
  by (simp add: mkc_def Render_def indexOfHash_def insert_parents_def dedupeHashes_def Let_def)

text \<open>
  Claim C2, as amended. For a root commit (no parents) rendered into pairwise distinct
  columns: when its hash is already a column, the column list afterwards is exactly one
  shorter; when it is not (a root that is a fresh tip), the column is prepended and removed
  again and the column list is unchanged.
\<close>

theorem Render_root:
  assumes "ParentHashes c = []" and "distinct (columns g)"
  shows "(Hash c \<in> set (columns g) \<longrightarrow>
            length (columns (snd (Render g c))) + 1 = length (columns g)) \<and>
         (Hash c \<notin> set (columns g) \<longrightarrow> columns (snd (Render g c)) = columns g)"
proof (intro conjI impI)
  assume a: "Hash c \<in> set (columns g)"
  have "length (columns (snd (Render g c))) = card (set (columns g) - {Hash c})"
    using Render_columns_length[OF assms(2), of c] assms(1) by simp
  also have "\<dots> = length (columns g) - 1"
    using a assms(2) by (simp add: distinct_card)
  finally show "length (columns (snd (Render g c))) + 1 = length (columns g)"
    using a by (cases "columns g") auto
next
  assume "Hash c \<notin> set (columns g)"
  then show "columns (snd (Render g c)) = columns g"
    using assms by (simp add: Render_columns_absent dedupeHashes_id)
qed

theorem Render_root_witness:
  "ParentHashes (mkc ''r0'' [] 1) = [] \<and> distinct (columns \<lparr>columns = [''a0'', ''r0'']\<rparr>) \<and>
   length (columns (snd (Render \<lparr>columns = [''a0'', ''r0'']\<rparr> (mkc ''r0'' [] 1)))) + 1 = 2 \<and>
   columns (snd (Render \<lparr>columns = [''a0'']\<rparr> (mkc ''r0'' [] 1))) = [''a0'']"
proof -
  have h: "ParentHashes (mkc ''r0'' [] 1) = []" by (simp add: mkc_def)
  have d1: "distinct (columns \<lparr>columns = [''a0'', ''r0'']\<rparr>)" by simp
  have d2: "distinct (columns \<lparr>columns = [''a0'']\<rparr>)" by simp
  from Render_root[OF h d1] Render_root[OF h d2] h d1 show ?thesis
    by (simp add: mkc_def)
qed

text \<open>
  C2 as stated fails for a root commit that is a fresh tip: rendered into the empty column
  list it leaves the list empty, and its length is not one less than before.
\<close>

theorem Render_root_length_counterexample:
  "ParentHashes (mkc ''r0'' [] 1) = [] \<and>
   int (length (columns (snd (Render \<lparr>columns = []\<rparr> (mkc ''r0'' [] 1)))))
     \<noteq> int (length (columns \<lparr>columns = []\<rparr>)) - 1"
  by (simp add: mkc_def Render_def indexOfHash_def dedupeHashes_def Let_def)


section \<open>Properties of the frontier heap\<close>

lemma parent_le: "parent j \<le> j"
  by (simp add: parent_def)

lemma parent_less: "0 < j \<Longrightarrow> parent j < j"
  by (simp add: parent_def)

lemma parent_fix: "parent j = j \<longleftrightarrow> j = 0"
  by (auto simp: parent_def)

lemma parent_length: "c < length h \<Longrightarrow> parent c < length h"
  using parent_le[of c] by simp

lemma Less_key: "Less h i j \<longleftrightarrow> key (h ! j) < key (h ! i)"
  by (auto simp: Less_def key_def less_prod_def)

lemma heap_ok_iff: "heap_ok h \<longleftrightarrow> (\<forall>j < length h. key (h ! j) \<le> key (h ! parent j))"
  by (auto simp: heap_ok_def list_all_iff parent_def)

lemma heap_up_unfold:
  "heap_up h j = (if parent j = j \<or> \<not> Less h j (parent j) then h
                  else heap_up (Swap h (parent j) j) (parent j))"
  by (subst heap_up.simps) (simp add: Let_def parent_def)

lemma Swap_length: "length (Swap h i j) = length h"
  by (simp add: Swap_def)

lemma Swap_nth:
  "i < length h \<Longrightarrow> j < length h \<Longrightarrow> c < length h \<Longrightarrow>
   Swap h i j ! c = (if c = j then h ! i else if c = i then h ! j else h ! c)"
  by (auto simp: Swap_def nth_list_update)

lemma Swap_mset: "i < length h \<Longrightarrow> j < length h \<Longrightarrow> mset (Swap h i j) = mset h"
  by (simp add: Swap_def mset_swap)

lemma Swap_nth_outside:
  "c \<noteq> i \<Longrightarrow> c \<noteq> j \<Longrightarrow> Swap h i j ! c = h ! c"
  by (simp add: Swap_def)

subsection \<open>\<open>up\<close>\<close>

lemma heap_up_length: "length (heap_up h j) = length h"
proof (induction h j rule: heap_up.induct)
  case (1 h j)
  show ?case
    using 1 by (subst heap_up.simps) (auto simp: Let_def Swap_length)
qed

lemma heap_up_mset: "j < length h \<Longrightarrow> mset (heap_up h j) = mset h"
proof (induction h j rule: heap_up.induct)
  case (1 h j)
  have lt: "(j - 1) div 2 < length h" using "1.prems" by simp
  show ?case
    using 1 lt by (subst heap_up.simps) (auto simp: Let_def Swap_length Swap_mset)
qed

lemma up_inv_done:
  assumes "up_inv h j" "key (h ! j) \<le> key (h ! parent j)"
  shows "heap_ok h"
  unfolding heap_ok_iff
proof (intro allI impI)
  fix c assume "c < length h"
  then show "key (h ! c) \<le> key (h ! parent c)"
    using assms by (cases "c = j") (auto simp: up_inv_def)
qed

lemma up_inv_step:
  assumes inv: "up_inv h j" and lt: "key (h ! parent j) < key (h ! j)"
  shows "up_inv (Swap h (parent j) j) (parent j)"
proof -
  define i where "i = parent j"
  have jl: "j < length h" using inv by (simp add: up_inv_def)
  have "j \<noteq> 0"
  proof
    assume "j = 0"
    then have "parent j = j" by (simp add: parent_def)
    with lt show False by simp
  qed
  then have ij: "i < j" using parent_less[of j] by (simp add: i_def)
  have il: "i < length h" using ij jl by simp
  have A: "key (h ! c) \<le> key (h ! parent c)" if "c < length h" "c \<noteq> j" for c
    using inv that by (simp add: up_inv_def)
  have B: "key (h ! c) \<le> key (h ! i)" if "c < length h" "parent c = j" "c \<noteq> j" for c
    using inv that by (simp add: up_inv_def i_def)
  have lt': "key (h ! i) < key (h ! j)" using lt by (simp add: i_def)
  have nth: "Swap h i j ! c = (if c = j then h ! i else if c = i then h ! j else h ! c)"
    if "c < length h" for c
    using Swap_nth[OF il jl that] .
  have nj: "Swap h i j ! j = h ! i" using nth[OF jl] by simp
  have ni: "Swap h i j ! i = h ! j" using nth[OF il] ij by simp
  have C1: "key (Swap h i j ! c) \<le> key (Swap h i j ! parent c)"
    if c: "c < length h" "c \<noteq> i" for c
  proof -
    have pc: "parent c < length h" using parent_length[OF c(1)] .
    consider "c = j" | "c \<noteq> j" "parent c = j" | "c \<noteq> j" "parent c = i"
      | "c \<noteq> j" "parent c \<noteq> j" "parent c \<noteq> i"
      by blast
    then show ?thesis
    proof cases
      case 1
      have "parent c = i" using 1 by (simp add: i_def)
      then show ?thesis using 1 nj ni lt' by simp
    next
      case 2
      have "Swap h i j ! c = h ! c" using nth[OF c(1)] 2(1) c(2) by simp
      then show ?thesis using B[OF c(1) 2(2) 2(1)] 2(2) nj by simp
    next
      case 3
      have "Swap h i j ! c = h ! c" using nth[OF c(1)] 3(1) c(2) by simp
      moreover have "key (h ! c) \<le> key (h ! i)" using A[OF c(1) 3(1)] 3(2) by simp
      ultimately show ?thesis using 3(2) ni lt' by simp
    next
      case 4
      have "Swap h i j ! c = h ! c" using nth[OF c(1)] 4(1) c(2) by simp
      moreover have "Swap h i j ! parent c = h ! parent c" using nth[OF pc] 4(2,3) by simp
      ultimately show ?thesis using A[OF c(1) 4(1)] by simp
    qed
  qed
  have top: "key (h ! i) \<le> key (Swap h i j ! parent i)"
  proof (cases "parent i = i")
    case True
    then show ?thesis using ni lt' by simp
  next
    case False
    have "parent i \<noteq> j" using parent_le[of i] ij by simp
    then have "Swap h i j ! parent i = h ! parent i"
      using nth[OF parent_length[OF il]] False by simp
    moreover have "i \<noteq> j" using ij by simp
    ultimately show ?thesis using A[OF il] by simp
  qed
  have C2: "key (Swap h i j ! c) \<le> key (Swap h i j ! parent i)"
    if c: "c < length h" "parent c = i" "c \<noteq> i" for c
  proof (cases "c = j")
    case True
    then show ?thesis using nj top by simp
  next
    case False
    have "key (h ! c) \<le> key (h ! i)" using A[OF c(1) False] c(2) by simp
    moreover have "Swap h i j ! c = h ! c" using nth[OF c(1)] False c(3) by simp
    ultimately show ?thesis using top by simp
  qed
  show ?thesis
    unfolding up_inv_def i_def[symmetric] Swap_length
    using il C1 C2 by blast
qed

lemma heap_up_ok: "up_inv h j \<Longrightarrow> heap_ok (heap_up h j)"
proof (induction h j rule: heap_up.induct)
  case (1 h j)
  show ?case
  proof (cases "parent j = j \<or> \<not> Less h j (parent j)")
    case True
    then have "key (h ! j) \<le> key (h ! parent j)"
      by (auto simp: Less_key)
    then have "heap_ok h" using up_inv_done[OF "1.prems"] by simp
    then show ?thesis using True by (subst heap_up_unfold) simp
  next
    case False
    then have lt: "key (h ! parent j) < key (h ! j)" by (simp add: Less_key)
    have "up_inv (Swap h (parent j) j) (parent j)"
      using up_inv_step[OF "1.prems" lt] .
    then have "heap_ok (heap_up (Swap h (parent j) j) (parent j))"
      using "1.IH"[of "parent j"] False by (simp add: parent_def)
    then show ?thesis using False by (subst heap_up_unfold) simp
  qed
qed

lemma heap_Push_ok: assumes "heap_ok h" shows "heap_ok (heap_Push h x)"
proof -
  have "up_inv (h @ [x]) (length h)"
    unfolding up_inv_def
  proof (intro conjI allI impI)
    show "length h < length (h @ [x])" by simp
  next
    fix c assume c: "c < length (h @ [x])" "c \<noteq> length h"
    then have cl: "c < length h" by simp
    then show "key ((h @ [x]) ! c) \<le> key ((h @ [x]) ! parent c)"
      using assms parent_length[OF cl] by (simp add: heap_ok_iff nth_append)
  next
    fix c assume c: "c < length (h @ [x])" "parent c = length h \<and> c \<noteq> length h"
    then have False using parent_le[of c] by auto
    then show "key ((h @ [x]) ! c) \<le> key ((h @ [x]) ! parent (length h))" ..
  qed
  then show ?thesis
    using heap_up_ok[of "h @ [x]" "length h"]
    by (simp add: heap_Push_def commitHeap_Push_def Let_def)
qed

lemma heap_Push_mset: "mset (heap_Push h x) = add_mset x (mset h)"
  by (simp add: heap_Push_def commitHeap_Push_def Let_def heap_up_mset)

lemma heap_Push_length: "length (heap_Push h x) = Suc (length h)"
  by (simp add: heap_Push_def commitHeap_Push_def Let_def heap_up_length)

subsection \<open>\<open>down\<close>\<close>

lemma heap_down_unfold:
  "heap_down h i n =
     (if n \<le> 2 * i + 1 \<or> \<not> Less h (child h i n) i then h
      else heap_down (Swap h i (child h i n)) (child h i n) n)"
  by (subst heap_down.simps) (simp add: Let_def child_def)

lemma child_bounds: "\<not> n \<le> 2 * i + 1 \<Longrightarrow> i < child h i n \<and> child h i n < n"
  by (auto simp: child_def)

lemma heap_down_induct [case_names step]:
  assumes "\<And>h i. (\<not> n \<le> 2 * i + 1 \<Longrightarrow> Less h (child h i n) i \<Longrightarrow>
                    P (Swap h i (child h i n)) (child h i n)) \<Longrightarrow> P h i"
  shows "P h i"
proof (induction "n - i" arbitrary: h i rule: less_induct)
  case less
  show ?case
  proof (rule assms)
    assume a: "\<not> n \<le> 2 * i + 1" "Less h (child h i n) i"
    have "n - child h i n < n - i" using child_bounds[OF a(1), of h] by auto
    then show "P (Swap h i (child h i n)) (child h i n)" by (rule less)
  qed
qed

lemma heap_down_length: "length (heap_down h i n) = length h"
proof (induction h i rule: heap_down_induct[where n = n])
  case (step h i)
  then show ?case by (subst heap_down_unfold) (auto simp: Swap_length)
qed

lemma heap_down_mset: "n \<le> length h \<Longrightarrow> mset (heap_down h i n) = mset h"
proof (induction h i rule: heap_down_induct[where n = n])
  case (step h i)
  show ?case
  proof (cases "n \<le> 2 * i + 1 \<or> \<not> Less h (child h i n) i")
    case True
    then show ?thesis by (subst heap_down_unfold) simp
  next
    case False
    then have b: "i < child h i n" "child h i n < n" using child_bounds[of n i h] by auto
    have "mset (Swap h i (child h i n)) = mset h"
      using b step.prems by (intro Swap_mset) auto
    then show ?thesis
      using False step by (subst heap_down_unfold) (simp add: Swap_length)
  qed
qed

lemma heap_down_nth_outside:
  "n \<le> length h \<Longrightarrow> n \<le> c \<Longrightarrow> heap_down h i n ! c = h ! c"
proof (induction h i rule: heap_down_induct[where n = n])
  case (step h i)
  show ?case
  proof (cases "n \<le> 2 * i + 1 \<or> \<not> Less h (child h i n) i")
    case True
    then show ?thesis by (subst heap_down_unfold) simp
  next
    case False
    then have b: "i < child h i n" "child h i n < n" using child_bounds[of n i h] by auto
    have "Swap h i (child h i n) ! c = h ! c"
      using b step.prems by (intro Swap_nth_outside) auto
    then show ?thesis
      using False step by (subst heap_down_unfold) (simp add: Swap_length)
  qed
qed

lemma child_iff: "parent c = i \<and> c \<noteq> i \<longleftrightarrow> c = 2 * i + 1 \<or> c = 2 * i + 2"
  unfolding parent_def by (cases "c = 0") auto

lemma down_inv_done:
  assumes inv: "down_inv h i n"
    and ch: "\<And>c. c < n \<Longrightarrow> parent c = i \<Longrightarrow> c \<noteq> i \<Longrightarrow> key (h ! c) \<le> key (h ! i)"
  shows "heap_ok_upto n h"
  unfolding heap_ok_upto_def
proof (intro allI impI)
  fix c assume c: "c < n"
  show "key (h ! c) \<le> key (h ! parent c)"
  proof (cases "parent c = i")
    case False
    then show ?thesis using inv c by (simp add: down_inv_def)
  next
    case True
    show ?thesis
    proof (cases "c = i")
      case True
      with \<open>parent c = i\<close> show ?thesis by simp
    next
      case False
      then show ?thesis using ch[OF c True] True by simp
    qed
  qed
qed

lemma down_inv_step:
  assumes inv: "down_inv h i n"
    and j: "j < n" "parent j = i" "j \<noteq> i"
    and lt: "key (h ! i) < key (h ! j)"
    and big: "\<And>c. c < n \<Longrightarrow> parent c = i \<Longrightarrow> c \<noteq> i \<Longrightarrow> key (h ! c) \<le> key (h ! j)"
  shows "down_inv (Swap h i j) j n"
proof -
  have nl: "n \<le> length h" using inv by (simp add: down_inv_def)
  have ij: "i < j" using parent_le[of j] j(2,3) by simp
  have jl: "j < length h" using j(1) nl by simp
  have il: "i < length h" using ij jl by simp
  have A: "key (h ! c) \<le> key (h ! parent c)" if "c < n" "parent c \<noteq> i" for c
    using inv that by (simp add: down_inv_def)
  have B: "key (h ! c) \<le> key (h ! parent i)" if "c < n" "parent c = i" "c \<noteq> i" "i \<noteq> 0" for c
    using inv that by (simp add: down_inv_def)
  have nth: "Swap h i j ! c = (if c = j then h ! i else if c = i then h ! j else h ! c)"
    if "c < length h" for c
    using Swap_nth[OF il jl that] .
  have nj: "Swap h i j ! j = h ! i" using nth[OF jl] by simp
  have ni: "Swap h i j ! i = h ! j" using nth[OF il] ij by simp
  have P1: "key (Swap h i j ! c) \<le> key (Swap h i j ! parent c)"
    if c: "c < n" "parent c \<noteq> j" for c
  proof -
    have cl: "c < length h" using c(1) nl by simp
    have pc: "parent c < length h" using parent_length[OF cl] .
    consider "c = j" | "c = i" "i = 0" | "c = i" "i \<noteq> 0" | "c \<noteq> i" "c \<noteq> j" "parent c = i"
      | "c \<noteq> i" "c \<noteq> j" "parent c \<noteq> i"
      by blast
    then show ?thesis
    proof cases
      case 1
      then show ?thesis using nj ni j(2) lt by simp
    next
      case 2
      then have "parent c = c" by (simp add: parent_def)
      then show ?thesis by simp
    next
      case 3
      have "parent i < i" using parent_less[of i] 3(2) by simp
      then have "Swap h i j ! parent i = h ! parent i"
        using nth[OF parent_length[OF il]] ij by simp
      moreover have "key (h ! j) \<le> key (h ! parent i)" using B[OF j 3(2)] .
      ultimately show ?thesis using 3(1) ni by simp
    next
      case 4
      have "Swap h i j ! c = h ! c" using nth[OF cl] 4(1,2) by simp
      then show ?thesis using big[OF c(1) 4(3) 4(1)] 4(3) ni by simp
    next
      case 5
      have "Swap h i j ! c = h ! c" using nth[OF cl] 5(1,2) by simp
      moreover have "Swap h i j ! parent c = h ! parent c" using nth[OF pc] 5(3) c(2) by simp
      ultimately show ?thesis using A[OF c(1) 5(3)] by simp
    qed
  qed
  have P2: "key (Swap h i j ! c) \<le> key (Swap h i j ! parent j)"
    if c: "c < n" "parent c = j" "c \<noteq> j" for c
  proof -
    have cl: "c < length h" using c(1) nl by simp
    have "c \<noteq> i" using parent_le[of c] c(2) ij by auto
    then have "Swap h i j ! c = h ! c" using nth[OF cl] c(3) by simp
    moreover have "key (h ! c) \<le> key (h ! j)" using A[OF c(1)] c(2) ij by simp
    ultimately show ?thesis using j(2) ni by simp
  qed
  show ?thesis
    unfolding down_inv_def Swap_length
    using nl P1 P2 by blast
qed

lemma heap_down_ok: "down_inv h i n \<Longrightarrow> heap_ok_upto n (heap_down h i n)"
proof (induction h i rule: heap_down_induct[where n = n])
  case (step h i)
  show ?case
  proof (cases "n \<le> 2 * i + 1")
    case True
    have "heap_ok_upto n h"
    proof (rule down_inv_done[OF step.prems])
      fix c assume "c < n" "parent c = i" "c \<noteq> i"
      then have False using child_iff[of c i] True by auto
      then show "key (h ! c) \<le> key (h ! i)" ..
    qed
    then show ?thesis using True by (subst heap_down_unfold) simp
  next
    case False
    define j where "j = child h i n"
    have jn: "j < n" using child_bounds[OF False, of h] by (simp add: j_def)
    have jc: "parent j = i" "j \<noteq> i" using child_iff[of j i] by (auto simp: j_def child_def)
    have big: "key (h ! c) \<le> key (h ! j)" if c: "c < n" "parent c = i" "c \<noteq> i" for c
    proof -
      from child_iff[of c i] c have "c = 2 * i + 1 \<or> c = 2 * i + 2" by simp
      then show ?thesis
      proof
        assume "c = 2 * i + 1"
        then show ?thesis by (auto simp: j_def child_def Less_key)
      next
        assume "c = 2 * i + 2"
        then show ?thesis using c(1) by (auto simp: j_def child_def Less_key)
      qed
    qed
    show ?thesis
    proof (cases "Less h j i")
      case nl: False
      then have le: "key (h ! j) \<le> key (h ! i)" by (simp add: Less_key)
      have "heap_ok_upto n h"
      proof (rule down_inv_done[OF step.prems])
        fix c assume "c < n" "parent c = i" "c \<noteq> i"
        from big[OF this] le show "key (h ! c) \<le> key (h ! i)" by simp
      qed
      then show ?thesis
        using nl by (subst heap_down_unfold) (simp add: j_def[symmetric])
    next
      case True
      then have lt: "key (h ! i) < key (h ! j)" by (simp add: Less_key)
      have "down_inv (Swap h i j) j n"
        by (rule down_inv_step[OF step.prems jn jc lt big])
      then have "heap_ok_upto n (heap_down (Swap h i j) j n)"
        using step.IH False True by (simp add: j_def)
      then show ?thesis
        using True False by (subst heap_down_unfold) (simp add: j_def[symmetric])
    qed
  qed
qed

subsection \<open>\<open>heap.Pop\<close>\<close>

lemma Swap_nth_snd: "j < length h \<Longrightarrow> Swap h i j ! j = h ! i"
  by (simp add: Swap_def)

lemma heap_ok_root_max:
  assumes "heap_ok h"
  shows "c < length h \<Longrightarrow> key (h ! c) \<le> key (h ! 0)"
proof (induction c rule: less_induct)
  case (less c)
  show ?case
  proof (cases "c = 0")
    case True
    then show ?thesis by simp
  next
    case False
    then have "parent c < c" using parent_less by simp
    moreover have "key (h ! c) \<le> key (h ! parent c)"
      using assms less.prems by (simp add: heap_ok_iff)
    ultimately show ?thesis
      using less.IH[of "parent c"] less.prems by auto
  qed
qed

lemma heap_Pop_None: "heap_Pop h = None \<longleftrightarrow> h = []"
  by (simp add: heap_Pop_def Let_def)

lemma heap_Pop_eq:
  assumes "h \<noteq> []"
  shows "heap_Pop h =
     Some (h ! 0, take (length h - 1) (heap_down (Swap h 0 (length h - 1)) 0 (length h - 1)))"
proof -
  define n where "n = length h - Suc 0"
  have nl: "n < length h" using assms by (simp add: n_def)
  have "heap_down (Swap h 0 n) 0 n ! n = Swap h 0 n ! n"
    by (rule heap_down_nth_outside) (simp_all add: Swap_length n_def)
  also have "\<dots> = h ! 0" using nl by (rule Swap_nth_snd)
  finally show ?thesis
    using assms
    by (simp add: heap_Pop_def Let_def commitHeap_Pop_def heap_down_length Swap_length
        n_def[symmetric])
qed

lemma heap_Pop_mset:
  assumes "heap_Pop h = Some (c, h')"
  shows "mset h = add_mset c (mset h')"
proof -
  have ne: "h \<noteq> []" using assms by (auto simp: heap_Pop_def)
  define n where "n = length h - Suc 0"
  define h2 where "h2 = heap_down (Swap h 0 n) 0 n"
  have nl: "n < length h" using ne by (simp add: n_def)
  have c: "c = h ! 0" and h': "h' = take n h2"
    using assms heap_Pop_eq[OF ne] by (simp_all add: n_def h2_def)
  have len: "length h2 = Suc n" using nl by (simp add: h2_def heap_down_length Swap_length n_def)
  have last: "h2 ! n = h ! 0"
    using heap_down_nth_outside[of n "Swap h 0 n" n 0] nl Swap_nth_snd[OF nl, of 0]
    by (simp add: h2_def Swap_length)
  have "mset (Swap h 0 n) = mset h"
    using nl ne by (intro Swap_mset) simp_all
  then have "mset h2 = mset h"
    using nl by (simp add: h2_def heap_down_mset Swap_length)
  moreover have "h2 = take n h2 @ [h2 ! n]"
    using len by (metis lessI take_Suc_conv_app_nth take_all order_refl)
  ultimately have "mset h = mset (take n h2 @ [h2 ! n])" by simp
  then show ?thesis by (simp add: c h' last)
qed

lemma heap_Pop_length:
  assumes "heap_Pop h = Some (c, h')"
  shows "length h = Suc (length h')"
  using heap_Pop_mset[OF assms] by (metis size_mset size_add_mset)

lemma heap_Pop_ok:
  assumes ok: "heap_ok h" and pop: "heap_Pop h = Some (c, h')"
  shows "heap_ok h'"
proof -
  have ne: "h \<noteq> []" using pop by (auto simp: heap_Pop_def)
  define n where "n = length h - Suc 0"
  define h1 where "h1 = Swap h 0 n"
  define h2 where "h2 = heap_down h1 0 n"
  have nl: "n < length h" using ne by (simp add: n_def)
  have h': "h' = take n h2"
    using pop heap_Pop_eq[OF ne] by (simp add: n_def h2_def h1_def)
  have "down_inv h1 0 n"
    unfolding down_inv_def
  proof (intro conjI allI impI)
    show "n \<le> length h1" using nl by (simp add: h1_def Swap_length)
  next
    fix c assume c: "c < n" "parent c \<noteq> 0"
    then have c0: "c \<noteq> 0" by (auto simp: parent_def)
    have pl: "parent c < n" using parent_le[of c] c(1) by simp
    have "h1 ! c = h ! c" "h1 ! parent c = h ! parent c"
      using c c0 pl by (simp_all add: h1_def Swap_nth_outside)
    then show "key (h1 ! c) \<le> key (h1 ! parent c)"
      using ok c(1) nl by (simp add: heap_ok_iff)
  next
    fix c assume "c < n" "parent c = 0 \<and> c \<noteq> 0 \<and> (0::nat) \<noteq> 0"
    then show "key (h1 ! c) \<le> key (h1 ! parent 0)" by simp
  qed
  then have "heap_ok_upto n h2" unfolding h2_def by (rule heap_down_ok)
  moreover have "length h2 = length h" by (simp add: h2_def h1_def heap_down_length Swap_length)
  ultimately have up: "\<forall>c < n. key (h2 ! c) \<le> key (h2 ! parent c)" and len: "length h2 = length h"
    by (simp_all add: heap_ok_upto_def)
  show ?thesis
    unfolding h' heap_ok_iff
  proof (intro allI impI)
    fix j assume "j < length (take n h2)"
    then have jn: "j < n" by simp
    then have pn: "parent j < n" using parent_le[of j] by simp
    show "key (take n h2 ! j) \<le> key (take n h2 ! parent j)"
      using up jn pn by simp
  qed
qed

lemma heap_Pop_max:
  assumes ok: "heap_ok h" and pop: "heap_Pop h = Some (c, h')"
  shows "c \<in> set h \<and> (\<forall>d \<in> set h. key d \<le> key c)"
proof -
  have ne: "h \<noteq> []" using pop by (auto simp: heap_Pop_def)
  have c: "c = h ! 0" using pop heap_Pop_eq[OF ne] by simp
  show ?thesis
    using heap_ok_root_max[OF ok] ne by (auto simp: c in_set_conv_nth)
qed

lemma heap_run_ok: "heap_ok h \<Longrightarrow> heap_run ops h = Some h' \<Longrightarrow> heap_ok h'"
proof (induction ops h rule: heap_run.induct)
  case (1 h)
  then show ?case by simp
next
  case (2 x ops h)
  then show ?case by (simp add: heap_Push_ok)
next
  case (3 ops h)
  then show ?case by (auto split: option.splits dest: heap_Pop_ok)
qed

lemma heap_ok_Nil: "heap_ok []"
  by (simp add: heap_ok_def)


section \<open>Properties of the provider\<close>

lemma CommitObject_Hash: "CommitObject r h = Some c \<Longrightarrow> Hash c = h"
  by (auto simp: CommitObject_def split: option.splits)

lemma heap_Push_hashes:
  "mset (map Hash (heap_Push hp c)) = add_mset (Hash c) (mset (map Hash hp))"
  using heap_Push_mset[of hp c] by (metis mset_map image_mset_add_mset)

lemma heap_Pop_hashes:
  "heap_Pop hp = Some (c, hp') \<Longrightarrow> mset (map Hash hp) = add_mset (Hash c) (mset (map Hash hp'))"
  using heap_Pop_mset[of hp c hp'] by (metis mset_map image_mset_add_mset)

lemma enqueue_inv:
  assumes "enq_inv X sh"
  shows "enq_inv X (enqueue r h sh)"
proof (cases "h \<in> fst sh")
  case True
  then show ?thesis using assms by (simp add: enqueue_def)
next
  case False
  show ?thesis
  proof (cases "CommitObject r h")
    case None
    then show ?thesis using assms False by (simp add: enqueue_def)
  next
    case (Some c)
    have hc: "Hash c = h" using Some by (rule CommitObject_Hash)
    have m: "mset (map Hash (heap_Push (snd sh) c)) = mset (h # map Hash (snd sh))"
      using heap_Push_hashes[of "snd sh" c] hc by simp
    have d: "distinct (map Hash (heap_Push (snd sh) c)) = distinct (h # map Hash (snd sh))"
      by (rule mset_eq_imp_distinct_iff[OF m])
    have s: "set (map Hash (heap_Push (snd sh) c)) = set (h # map Hash (snd sh))"
      by (rule mset_eq_setD[OF m])
    have hn: "h \<notin> set (map Hash (snd sh))" "h \<notin> X"
      using assms False by (auto simp: enq_inv_def)
    have e: "enqueue r h sh = (insert h (fst sh), heap_Push (snd sh) c)"
      using False Some by (simp add: enqueue_def)
    show ?thesis
      unfolding e enq_inv_def fst_conv snd_conv d s
      using assms hn by (auto simp: enq_inv_def heap_Push_ok)
  qed
qed

lemma fold_enqueue_inv: "enq_inv X sh \<Longrightarrow> enq_inv X (fold (enqueue r) hs sh)"
  by (induction hs arbitrary: sh) (simp_all add: enqueue_inv)

lemma buildCommitInfo_Hash: "InfoHash (fst (buildCommitInfo c g)) = Hash c"
  by (simp add: buildCommitInfo_def Let_def split: prod.splits)

lemma loadNext_None: "loadNext p = None \<longleftrightarrow> heap p = []"
  by (auto simp: loadNext_def Let_def heap_Pop_def split: option.splits prod.splits)

lemma loadNext_Some:
  assumes "loadNext p = Some (e, p')"
  shows "e = None" and "limit p' = limit p" and "repo p' = repo p" and "all p' = all p"
    and "complete p' = complete p"
    and "\<exists>c hp. heap_Pop (heap p) = Some (c, hp) \<and>
           Commits p' = Commits p @ [fst (buildCommitInfo c (graph p))] \<and>
           graph p' = snd (buildCommitInfo c (graph p))"
  using assms
  by (auto simp: loadNext_def Let_def split: option.splits prod.splits if_splits)

lemma loadNext_length:
  "loadNext p = Some (e, p') \<Longrightarrow> length (Commits p') = Suc (length (Commits p))"
  using loadNext_Some(6)[of p e p'] by auto

lemma loadNext_inv:
  assumes inv: "prov_inv p" and l: "loadNext p = Some (e, p')"
  shows "prov_inv p'"
proof -
  from l obtain c hp where pop: "heap_Pop (heap p) = Some (c, hp)"
    by (auto simp: loadNext_def split: option.splits)
  define info where "info = fst (buildCommitInfo c (graph p))"
  define g' where "g' = snd (buildCommitInfo c (graph p))"
  define p1 where "p1 = p\<lparr>heap := hp, graph := g', Commits := Commits p @ [info]\<rparr>"
  have ih: "InfoHash info = Hash c" by (simp add: info_def buildCommitInfo_Hash)
  have m: "mset (map Hash hp @ map InfoHash (Commits p1))
         = mset (map Hash (heap p) @ map InfoHash (Commits p))"
    using heap_Pop_hashes[OF pop] by (simp add: p1_def ih)
  have d1: "distinct (map Hash hp @ map InfoHash (Commits p1))"
    using mset_eq_imp_distinct_iff[OF m] inv by (simp add: prov_inv_def)
  have s1: "set (map Hash hp @ map InfoHash (Commits p1)) \<subseteq> seen p"
    using mset_eq_setD[OF m] inv by (simp add: prov_inv_def)
  have ok1: "heap_ok hp" using heap_Pop_ok[OF _ pop] inv by (simp add: prov_inv_def)
  have inv1: "prov_inv p1"
    using d1 s1 ok1 by (simp add: prov_inv_def p1_def)
  have cases: "p' = p1 \<or>
     p' = p1\<lparr>seen := fst (fold (enqueue (repo p1)) (ParentHashes c) (seen p1, heap p1)),
             heap := snd (fold (enqueue (repo p1)) (ParentHashes c) (seen p1, heap p1))\<rparr>"
    using l pop
    by (auto simp: loadNext_def Let_def p1_def info_def g'_def split: prod.splits if_splits)
  then show ?thesis
  proof
    assume "p' = p1" then show ?thesis using inv1 by simp
  next
    define sh where "sh = fold (enqueue (repo p1)) (ParentHashes c) (seen p1, heap p1)"
    assume "p' = p1\<lparr>seen := fst (fold (enqueue (repo p1)) (ParentHashes c) (seen p1, heap p1)),
             heap := snd (fold (enqueue (repo p1)) (ParentHashes c) (seen p1, heap p1))\<rparr>"
    then have p': "p' = p1\<lparr>seen := fst sh, heap := snd sh\<rparr>" by (simp add: sh_def)
    have "enq_inv (set (map InfoHash (Commits p1))) (seen p1, heap p1)"
      using inv1 by (auto simp: enq_inv_def prov_inv_def)
    then have "enq_inv (set (map InfoHash (Commits p1))) sh"
      unfolding sh_def by (rule fold_enqueue_inv)
    then show ?thesis
      using inv1 by (auto simp: p' enq_inv_def prov_inv_def p1_def)
  qed
qed

text \<open>A total-correctness rule for the loop of \<open>Ensure\<close>.\<close>

lemma Ensure_loop_rule:
  assumes "P p"
    and step: "\<And>q e q'. P q \<Longrightarrow> int (length (Commits q)) \<le> i \<Longrightarrow> HasMore q \<Longrightarrow>
                 loadNext q = Some (e, q') \<Longrightarrow> P q'"
  shows "\<exists>p'. Ensure_loop i p = Some (None, p') \<and> P p' \<and>
              \<not> (int (length (Commits p')) \<le> i \<and> HasMore p')"
  using assms
proof (induction i p rule: Ensure_loop.induct)
  case (1 i p)
  note step = "1.prems"(2)
  show ?case
  proof (cases "int (length (Commits p)) \<le> i \<and> HasMore p")
    case False
    then show ?thesis using "1.prems"(1) by (subst Ensure_loop.simps) auto
  next
    case True
    then have "heap p \<noteq> []" by (auto simp: HasMore_def split: if_splits)
    then obtain e q where l: "loadNext p = Some (e, q)"
      using loadNext_None[of p] by (cases "loadNext p") auto
    have e: "e = None" using loadNext_Some(1)[OF l] .
    have "P q" using step[OF "1.prems"(1) conjunct1[OF True] conjunct2[OF True] l] .
    from "1.IH"[OF True l[unfolded e] refl refl this step]
    show ?thesis using True l e by (subst Ensure_loop.simps) simp
  qed
qed

lemma Ensure_rule:
  assumes "P p"
    and step: "\<And>q e q'. P q \<Longrightarrow> int (length (Commits q)) \<le> i \<Longrightarrow> HasMore q \<Longrightarrow>
                 loadNext q = Some (e, q') \<Longrightarrow> P q'"
    and fin: "\<And>q. P q \<Longrightarrow> P (q\<lparr>complete := True\<rparr>)"
  shows "\<exists>p'. Ensure i p = Some (None, p') \<and> P p' \<and>
              (0 \<le> i \<longrightarrow> \<not> (int (length (Commits p')) \<le> i \<and> HasMore p'))"
proof (cases "i < 0")
  case True
  then show ?thesis using assms(1) by (simp add: Ensure_def)
next
  case False
  have "\<exists>p'. Ensure_loop i p = Some (None, p') \<and> P p' \<and>
              \<not> (int (length (Commits p')) \<le> i \<and> HasMore p')"
  proof (rule Ensure_loop_rule[where P = P, OF assms(1)])
    fix q e q'
    assume "P q" "int (length (Commits q)) \<le> i" "HasMore q" "loadNext q = Some (e, q')"
    then show "P q'" by (rule step)
  qed
  then obtain q where
    q: "Ensure_loop i p = Some (None, q)" "P q" "\<not> (int (length (Commits q)) \<le> i \<and> HasMore q)"
    by blast
  show ?thesis
    using False q fin[OF q(2)] by (auto simp: Ensure_def HasMore_def)
qed

lemma Ensure_total: "\<exists>p'. Ensure i p = Some (None, p')"
  using Ensure_rule[where P = "\<lambda>_. True" and p = p and i = i] by auto

lemma Ensure_calls_rule:
  assumes "P p"
    and step: "\<And>q e q'. P q \<Longrightarrow> HasMore q \<Longrightarrow> loadNext q = Some (e, q') \<Longrightarrow> P q'"
    and fin: "\<And>q. P q \<Longrightarrow> P (q\<lparr>complete := True\<rparr>)"
  shows "\<exists>p'. Ensure_calls is p = Some p' \<and> P p'"
  using assms(1)
proof (induction "is" arbitrary: p)
  case Nil
  then show ?case by simp
next
  case (Cons i "is")
  have "\<exists>p'. Ensure i p = Some (None, p') \<and> P p' \<and>
              (0 \<le> i \<longrightarrow> \<not> (int (length (Commits p')) \<le> i \<and> HasMore p'))"
  proof (rule Ensure_rule[where P = P, OF Cons.prems])
    fix q e q'
    assume "P q" "int (length (Commits q)) \<le> i" "HasMore q" "loadNext q = Some (e, q')"
    then show "P q'" using step by blast
  next
    fix q assume "P q" then show "P (q\<lparr>complete := True\<rparr>)" by (rule fin)
  qed
  then obtain q where
    q: "Ensure i p = Some (None, q)" "P q" by blast
  from Cons.IH[OF q(2)] q(1) show ?case by simp
qed

text \<open>
  Claim C3. Whatever sequence of \<open>heap.Push\<close> and \<open>heap.Pop\<close> calls built the
  frontier, the commit that the next \<open>heap.Pop\<close> returns is a commit of the frontier
  with the latest committer time and, among those, the greatest hash string; in
  particular, of two commits in the frontier with the same committer time, the one with
  the smaller hash is never popped while the other is still there.
\<close>

theorem heap_Pop_order:
  assumes "heap_run ops [] = Some h" and "heap_Pop h = Some (c, h')"
  shows "c \<in> set h \<and>
    (\<forall>d \<in> set h. CommitterWhen d < CommitterWhen c \<or>
                   (CommitterWhen d = CommitterWhen c \<and> Hash d \<le> Hash c)) \<and>
    (\<forall>a \<in> set h. \<forall>b \<in> set h.
        CommitterWhen a = CommitterWhen b \<and> Hash b < Hash a \<longrightarrow> b \<noteq> c)"
proof -
  have ok: "heap_ok h" using heap_run_ok[OF heap_ok_Nil assms(1)] .
  from heap_Pop_max[OF ok assms(2)] have c: "c \<in> set h" and mx: "\<forall>d \<in> set h. key d \<le> key c"
    by simp_all
  have le: "CommitterWhen d < CommitterWhen c \<or>
              (CommitterWhen d = CommitterWhen c \<and> Hash d \<le> Hash c)" if "d \<in> set h" for d
    using mx that by (auto simp: key_def less_eq_prod_def)
  have "b \<noteq> c" if "a \<in> set h" "b \<in> set h" "CommitterWhen a = CommitterWhen b \<and> Hash b < Hash a"
    for a b
    using le[OF that(1)] that(3) by auto
  then show ?thesis using c le by blast
qed

theorem heap_Pop_order_witness:
  "heap_run [PushOp (mkc ''aa'' [] 5), PushOp (mkc ''ab'' [] 5), PushOp (mkc ''zz'' [] 4)] []
     = Some [mkc ''ab'' [] 5, mkc ''aa'' [] 5, mkc ''zz'' [] 4] \<and>
   heap_Pop [mkc ''ab'' [] 5, mkc ''aa'' [] 5, mkc ''zz'' [] 4]
     = Some (mkc ''ab'' [] 5, [mkc ''aa'' [] 5, mkc ''zz'' [] 4]) \<and>
   mkc ''aa'' [] 5 \<noteq> mkc ''ab'' [] 5"
proof -
  have run: "heap_run [PushOp (mkc ''aa'' [] 5), PushOp (mkc ''ab'' [] 5), PushOp (mkc ''zz'' [] 4)] []
     = Some [mkc ''ab'' [] 5, mkc ''aa'' [] 5, mkc ''zz'' [] 4]"
    by code_simp
  have pop: "heap_Pop [mkc ''ab'' [] 5, mkc ''aa'' [] 5, mkc ''zz'' [] 4]
     = Some (mkc ''ab'' [] 5, [mkc ''aa'' [] 5, mkc ''zz'' [] 4])"
    by code_simp
  have "CommitterWhen (mkc ''ab'' [] 5) = CommitterWhen (mkc ''aa'' [] 5) \<and>
        Hash (mkc ''aa'' [] 5) < Hash (mkc ''ab'' [] 5)"
    by (simp add: mkc_def)
  with heap_Pop_order[OF run pop] have "mkc ''aa'' [] 5 \<noteq> mkc ''ab'' [] 5"
    by simp
  with run pop show ?thesis by simp
qed

lemma NewCommitProvider_Inr:
  assumes "NewCommitProvider r a lim = Inr p0"
  shows "limit p0 = lim" and "Commits p0 = []" and "prov_inv p0" and "repo p0 = r"
proof -
  from assms obtain tips where
    p0: "p0 = \<lparr>repo = r, all = a, limit = lim, seen = fst (fold (enqueue r) tips ({}, [])),
              heap = snd (fold (enqueue r) tips ({}, [])),
              graph = \<lparr>columns = []\<rparr>, Commits = [], complete = False\<rparr>"
    by (auto simp: NewCommitProvider_def Let_def split: sum.splits if_splits)
  have "enq_inv {} ({}, [])" by (simp add: enq_inv_def heap_ok_Nil)
  then have "enq_inv {} (fold (enqueue r) tips ({}, []))" by (rule fold_enqueue_inv)
  then show "prov_inv p0" by (simp add: p0 prov_inv_def enq_inv_def)
  show "limit p0 = lim" "Commits p0 = []" "repo p0 = r" by (simp_all add: p0)
qed

lemma Ensure_satisfied:
  assumes "index < int (length (Commits p))"
  shows "Ensure index p =
     Some (None, if length (heap p) = 0 \<and> (limit p = 0 \<or> int (length (Commits p)) < limit p)
                    \<and> 0 \<le> index
                 then p\<lparr>complete := True\<rparr> else p)"
proof -
  have "Ensure_loop index p = Some (None, p)"
    using assms by (subst Ensure_loop.simps) simp
  then show ?thesis by (simp add: Ensure_def)
qed

lemma Ensure_done:
  assumes "\<not> (int (length (Commits p)) \<le> index \<and> HasMore p)" "0 \<le> index"
  shows "Ensure index p =
     Some (None, if length (heap p) = 0 \<and> (limit p = 0 \<or> int (length (Commits p)) < limit p)
                 then p\<lparr>complete := True\<rparr> else p)"
proof -
  have "Ensure_loop index p = Some (None, p)"
    using assms by (subst Ensure_loop.simps) auto
  then show ?thesis using assms(2) by (simp add: Ensure_def)
qed

lemma HasMore_complete [simp]: "HasMore (p\<lparr>complete := b\<rparr>) = HasMore p"
  by (simp add: HasMore_def)

lemma Ensure_again:
  assumes "j \<le> index" and "Ensure index p = Some (e, p')"
  shows "Ensure j p' = Some (None, p')"
proof (cases "j < 0")
  case True
  then show ?thesis by (simp add: Ensure_def)
next
  case False
  then have i0: "0 \<le> index" "\<not> index < 0" using assms(1) by simp_all
  have "\<exists>q. Ensure_loop index p = Some (None, q) \<and> True \<and>
              \<not> (int (length (Commits q)) \<le> index \<and> HasMore q)"
    by (rule Ensure_loop_rule[where P = "\<lambda>_. True"]) simp_all
  then obtain q where q: "Ensure_loop index p = Some (None, q)"
      "\<not> (int (length (Commits q)) \<le> index \<and> HasMore q)"
    by blast
  define fin where
    "fin \<longleftrightarrow> length (heap q) = 0 \<and> (limit q = 0 \<or> int (length (Commits q)) < limit q)"
  have p': "p' = (if fin then q\<lparr>complete := True\<rparr> else q)"
    using assms(2) q(1) i0 by (auto simp: Ensure_def fin_def)
  have nd: "\<not> (int (length (Commits p')) \<le> j \<and> HasMore p')"
    using q(2) assms(1) by (auto simp: p')
  have same: "(length (heap p') = 0 \<and> (limit p' = 0 \<or> int (length (Commits p')) < limit p')) = fin"
    by (simp add: p' fin_def)
  have "Ensure j p' = Some (None, if fin then p'\<lparr>complete := True\<rparr> else p')"
    using Ensure_done[OF nd] False same by simp
  also have "(if fin then p'\<lparr>complete := True\<rparr> else p') = p'"
    by (simp add: p')
  finally show ?thesis .
qed

text \<open>
  Claim C5. \<open>Ensure\<close> with a negative index returns the provider as it is; with a
  non-negative index it returns, with a provider that has more than \<open>index\<close> commits
  or for which \<open>HasMore\<close> is false; when the provider already has more than \<open>index\<close>
  commits nothing is loaded (at most the \<open>complete\<close> flag changes); and after
  \<open>Ensure index\<close>, a further \<open>Ensure\<close> with the same or a smaller index changes
  nothing at all.
\<close>

theorem Ensure_contract:
  "(index < 0 \<longrightarrow> Ensure index p = Some (None, p)) \<and>
   (0 \<le> index \<longrightarrow>
      (\<exists>p'. Ensure index p = Some (None, p') \<and>
            (index < int (length (Commits p')) \<or> \<not> HasMore p'))) \<and>
   (index < int (length (Commits p)) \<longrightarrow>
      (\<exists>b. Ensure index p = Some (None, p\<lparr>complete := b\<rparr>))) \<and>
   (\<forall>j e p'. j \<le> index \<and> Ensure index p = Some (e, p') \<longrightarrow> Ensure j p' = Some (None, p'))"
proof (intro conjI impI allI)
  assume "index < 0"
  then show "Ensure index p = Some (None, p)" by (simp add: Ensure_def)
next
  assume "0 \<le> index"
  then show "\<exists>p'. Ensure index p = Some (None, p') \<and>
            (index < int (length (Commits p')) \<or> \<not> HasMore p')"
    using Ensure_rule[where P = "\<lambda>_. True" and p = p and i = index] by auto
next
  assume a: "index < int (length (Commits p))"
  define fin where "fin \<longleftrightarrow> length (heap p) = 0 \<and>
      (limit p = 0 \<or> int (length (Commits p)) < limit p) \<and> 0 \<le> index"
  have e: "Ensure index p = Some (None, if fin then p\<lparr>complete := True\<rparr> else p)"
    unfolding fin_def by (rule Ensure_satisfied[OF a])
  show "\<exists>b. Ensure index p = Some (None, p\<lparr>complete := b\<rparr>)"
  proof (cases fin)
    case True
    then show ?thesis unfolding e by (intro exI[of _ True]) simp
  next
    case False
    then show ?thesis unfolding e by (intro exI[of _ "complete p"]) simp
  qed
next
  fix j e p'
  assume "j \<le> index \<and> Ensure index p = Some (e, p')"
  then show "Ensure j p' = Some (None, p')" using Ensure_again by blast
qed

text \<open>
  Claim C9. For every provider and every index, \<open>Ensure\<close> returns (no panic) and the
  error it returns is \<open>nil\<close>.
\<close>

theorem Ensure_never_fails: "\<exists>p'. Ensure index p = Some (None, p')"
  by (rule Ensure_total)

lemma Ensure_calls_limit:
  assumes "0 < limit p" "int (length (Commits p)) \<le> limit p"
  shows "\<exists>p'. Ensure_calls is p = Some p' \<and>
           (limit p' = limit p \<and> int (length (Commits p')) \<le> limit p)"
proof (rule Ensure_calls_rule[where P = "\<lambda>q. limit q = limit p \<and> int (length (Commits q)) \<le> limit p"])
  show "limit p = limit p \<and> int (length (Commits p)) \<le> limit p" using assms by simp
next
  fix q e q'
  assume a: "limit q = limit p \<and> int (length (Commits q)) \<le> limit p" "HasMore q"
    "loadNext q = Some (e, q')"
  have "int (length (Commits q)) < limit q"
    using a(1,2) assms(1) by (auto simp: HasMore_def split: if_splits)
  then show "limit q' = limit p \<and> int (length (Commits q')) \<le> limit p"
    using loadNext_Some(2)[OF a(3)] loadNext_length[OF a(3)] a(1) by simp
next
  fix q
  assume "limit q = limit p \<and> int (length (Commits q)) \<le> limit p"
  then show "limit (q\<lparr>complete := True\<rparr>) = limit p \<and>
             int (length (Commits (q\<lparr>complete := True\<rparr>))) \<le> limit p"
    by simp
qed

text \<open>
  Claim C4. With \<open>limit = 0\<close>, \<open>HasMore\<close> is true exactly when the frontier is not
  empty. With a positive limit, \<open>HasMore\<close> is false as soon as the materialized
  sequence has reached the limit, whatever the frontier holds, and no sequence of
  \<open>Ensure\<close> calls on a provider within its limit (as every new provider is, having no
  commits) takes the sequence past it.
\<close>

theorem limit_bound:
  "(limit p = 0 \<longrightarrow> HasMore p = (heap p \<noteq> [])) \<and>
   (0 < limit p \<and> limit p \<le> int (length (Commits p)) \<longrightarrow> \<not> HasMore p) \<and>
   (0 < limit p \<and> int (length (Commits p)) \<le> limit p \<longrightarrow>
      (\<exists>p'. Ensure_calls is p = Some p' \<and> limit p' = limit p \<and>
            int (length (Commits p')) \<le> limit p)) \<and>
   (\<forall>r a p0. NewCommitProvider r a (limit p) = Inr p0 \<longrightarrow>
      limit p0 = limit p \<and> Commits p0 = [])"
proof (intro conjI impI allI)
  assume "limit p = 0"
  then show "HasMore p = (heap p \<noteq> [])" by (simp add: HasMore_def)
next
  assume "0 < limit p \<and> limit p \<le> int (length (Commits p))"
  then show "\<not> HasMore p" by (simp add: HasMore_def)
next
  assume "0 < limit p \<and> int (length (Commits p)) \<le> limit p"
  then show "\<exists>p'. Ensure_calls is p = Some p' \<and> limit p' = limit p \<and>
            int (length (Commits p')) \<le> limit p"
    using Ensure_calls_limit[of p "is"] by simp
next
  fix r a p0 assume "NewCommitProvider r a (limit p) = Inr p0"
  then show "limit p0 = limit p" "Commits p0 = []"
    using NewCommitProvider_Inr(1,2) by blast+
qed

text \<open>
  Claim C6. After any sequence of \<open>Ensure\<close> calls on a new provider, no hash occurs
  twice in the materialized sequence; nor does one occur twice in the frontier, or in both,
  and all of them are in the seen set.
\<close>

theorem no_duplicate_commits:
  assumes "NewCommitProvider r a lim = Inr p0"
  shows "\<exists>p. Ensure_calls is p0 = Some p \<and>
           distinct (map InfoHash (Commits p)) \<and>
           distinct (map Hash (heap p)) \<and>
           set (map Hash (heap p)) \<inter> set (map InfoHash (Commits p)) = {} \<and>
           set (map Hash (heap p)) \<union> set (map InfoHash (Commits p)) \<subseteq> seen p"
proof -
  have "\<exists>p. Ensure_calls is p0 = Some p \<and> prov_inv p"
  proof (rule Ensure_calls_rule[where P = prov_inv])
    show "prov_inv p0" using NewCommitProvider_Inr(3)[OF assms] .
  next
    fix q e q' assume "prov_inv q" "HasMore q" "loadNext q = Some (e, q')"
    then show "prov_inv q'" using loadNext_inv by blast
  next
    fix q assume "prov_inv q"
    then show "prov_inv (q\<lparr>complete := True\<rparr>)" by (simp add: prov_inv_def)
  qed
  then show ?thesis by (auto simp: prov_inv_def)
qed

lemma heap_Push_Nil: "heap_Push [] c = [c]"
  by (subst heap_Push_def, subst heap_up.simps) (simp add: commitHeap_Push_def Let_def)

lemma ex_new: "NewCommitProvider ex_repo False lim = Inr (ex_provider lim)"
  by (simp add: NewCommitProvider_def gatherTips_def ex_repo_def ex_provider_def IsBranch_def
      enqueue_def CommitObject_def heap_Push_Nil Let_def mkc_def)

theorem Ensure_contract_witness:
  "Ensure (- 1) (ex_provider 0) = Some (None, ex_provider 0) \<and>
   (\<exists>b. Ensure (- 1) (ex_provider 0) = Some (None, (ex_provider 0)\<lparr>complete := b\<rparr>)) \<and>
   (\<exists>p'. Ensure 1 (ex_provider 0) = Some (None, p') \<and>
         (1 < int (length (Commits p')) \<or> \<not> HasMore p') \<and>
         Ensure 0 p' = Some (None, p')) \<and>
   map_option (\<lambda>(e, p'). map InfoHash (Commits p')) (Ensure 1 (ex_provider 0))
     = Some [''c4'', ''c3'']"
proof -
  have neg: "(- 1 :: int) < 0" "(- 1 :: int) < int (length (Commits (ex_provider 0)))"
    by (simp_all add: ex_provider_def)
  have pos: "(0::int) \<le> 1" by simp
  note C = Ensure_contract[of "- 1" "ex_provider 0"]
  note D = Ensure_contract[of 1 "ex_provider 0"]
  have a: "Ensure (- 1) (ex_provider 0) = Some (None, ex_provider 0)"
    using conjunct1[OF C] neg(1) by (rule mp)
  have b: "\<exists>b. Ensure (- 1) (ex_provider 0) = Some (None, (ex_provider 0)\<lparr>complete := b\<rparr>)"
    using conjunct1[OF conjunct2[OF conjunct2[OF C]]] neg(2) by (rule mp)
  have "\<exists>p'. Ensure 1 (ex_provider 0) = Some (None, p') \<and>
            (1 < int (length (Commits p')) \<or> \<not> HasMore p')"
    using conjunct1[OF conjunct2[OF D]] pos by (rule mp)
  then obtain p' where
    p': "Ensure 1 (ex_provider 0) = Some (None, p')"
        "1 < int (length (Commits p')) \<or> \<not> HasMore p'"
    by (elim exE conjE)
  have "(0::int) \<le> 1 \<and> Ensure 1 (ex_provider 0) = Some (None, p')" using p'(1) by simp
  with spec[OF spec[OF spec[OF conjunct2[OF conjunct2[OF conjunct2[OF D]]]]], of 0 None p']
  have "Ensure 0 p' = Some (None, p')" by (rule mp)
  with p' have c: "\<exists>p'. Ensure 1 (ex_provider 0) = Some (None, p') \<and>
         (1 < int (length (Commits p')) \<or> \<not> HasMore p') \<and>
         Ensure 0 p' = Some (None, p')"
    by (intro exI[of _ p'] conjI)
  have d: "map_option (\<lambda>(e, p'). map InfoHash (Commits p')) (Ensure 1 (ex_provider 0))
     = Some [''c4'', ''c3'']"
    by code_simp
  from a b c d show ?thesis by (intro conjI) simp_all
qed

theorem Ensure_never_fails_witness:
  "\<exists>p'. Ensure 7 (ex_provider 0) = Some (None, p') \<and>
        map InfoHash (Commits p') = [''c4'', ''c3'', ''c2'', ''c1'']"
proof -
  from Ensure_never_fails[of 7 "ex_provider 0"] obtain p' where
    p': "Ensure 7 (ex_provider 0) = Some (None, p')" by blast
  have "map_option (\<lambda>(e, p'). map InfoHash (Commits p')) (Ensure 7 (ex_provider 0))
     = Some [''c4'', ''c3'', ''c2'', ''c1'']"
    by code_simp
  with p' show ?thesis by simp
qed

theorem limit_bound_witness:
  "HasMore (ex_provider 0) = (heap (ex_provider 0) \<noteq> []) \<and>
   (\<exists>p'. Ensure_calls [0, 1, 7] (ex_provider 3) = Some p' \<and> limit p' = 3 \<and>
         map InfoHash (Commits p') = [''c4'', ''c3'', ''c2''] \<and> map Hash (heap p') = [''c1''] \<and>
         \<not> HasMore p')"
proof -
  have z: "limit (ex_provider 0) = 0" by (simp add: ex_provider_def)
  have l3: "0 < limit (ex_provider 3) \<and>
            int (length (Commits (ex_provider 3))) \<le> limit (ex_provider 3)"
    by (simp add: ex_provider_def)
  from limit_bound[of "ex_provider 0" "[]"] z
  have a: "HasMore (ex_provider 0) = (heap (ex_provider 0) \<noteq> [])" by blast
  from limit_bound[of "ex_provider 3" "[0, 1, 7]"] l3 obtain p' where
    p': "Ensure_calls [0, 1, 7] (ex_provider 3) = Some p'" "limit p' = limit (ex_provider 3)"
    by blast
  have ev: "map_option (\<lambda>p'. (map InfoHash (Commits p'), map Hash (heap p')))
              (Ensure_calls [0, 1, 7] (ex_provider 3))
            = Some ([''c4'', ''c3'', ''c2''], [''c1''])"
    by code_simp
  have c: "map InfoHash (Commits p') = [''c4'', ''c3'', ''c2'']" "map Hash (heap p') = [''c1'']"
    using ev p'(1) by simp_all
  have lim: "limit p' = 3" using p'(2) by (simp add: ex_provider_def)
  have "length (map InfoHash (Commits p')) = 3" by (simp add: c(1))
  then have "length (Commits p') = 3" by simp
  then have "0 < limit p' \<and> limit p' \<le> int (length (Commits p'))" using lim by simp
  with limit_bound[of p' "[]"] have "\<not> HasMore p'" by blast
  with a p'(1) lim c show ?thesis by (intro conjI exI[of _ p']) simp_all
qed

theorem no_duplicate_commits_witness:
  "NewCommitProvider ex_repo False 0 = Inr (ex_provider 0) \<and>
   (\<exists>p. Ensure_calls [0, 1, 7] (ex_provider 0) = Some p \<and>
        distinct (map InfoHash (Commits p)) \<and>
        map InfoHash (Commits p) = [''c4'', ''c3'', ''c2'', ''c1''])"
proof -
  have new: "NewCommitProvider ex_repo False 0 = Inr (ex_provider 0)" by (rule ex_new)
  from no_duplicate_commits[OF new, of "[0, 1, 7]"] obtain p where
    p: "Ensure_calls [0, 1, 7] (ex_provider 0) = Some p" "distinct (map InfoHash (Commits p))"
    by blast
  have "map_option (\<lambda>p'. map InfoHash (Commits p')) (Ensure_calls [0, 1, 7] (ex_provider 0))
          = Some [''c4'', ''c3'', ''c2'', ''c1'']"
    by code_simp
  with p new show ?thesis by auto
qed


end
